theory Spec2Isabelle
  imports Main
begin

section \<open>JavaScript values and objects\<close>

text \<open>
  The client code (CacheManager, WebSocketSyncManager, DataPreloader) works on plain
  JavaScript objects. A value is one of the primitive kinds the code distinguishes with
  \<open>typeof\<close>, \<open>instanceof Date\<close> and truthiness tests. Numbers are the integral
  ones (time values in seconds or milliseconds, counters, change-log ids) and \<open>NaN\<close>;
  a \<open>Date\<close> carries its time value, \<open>None\<close> for an Invalid Date.
\<close>

datatype jsval =
    JUndefined
  | JNull
  | JBool bool
  | JNum int
  | JNaN
  | JStr string
  | JDate "int option"

text \<open>An object maps property names to values; an absent property reads as \<open>undefined\<close>.\<close>

type_synonym obj = "string \<Rightarrow> jsval option"

definition get_prop :: "obj \<Rightarrow> string \<Rightarrow> jsval" where
  "get_prop ob k = (case ob k of None \<Rightarrow> JUndefined | Some v \<Rightarrow> v)"

fun truthy :: "jsval \<Rightarrow> bool" where
  "truthy JUndefined = False"
| "truthy JNull = False"
| "truthy (JBool b) = b"
| "truthy (JNum n) = (n \<noteq> 0)"
| "truthy JNaN = False"
| "truthy (JStr s) = (s \<noteq> [])"
| "truthy (JDate d) = True"

text \<open>The operator \<open>a || b\<close>.\<close>

definition js_or :: "jsval \<Rightarrow> jsval \<Rightarrow> jsval" where
  "js_or a b = (if truthy a then a else b)"


text \<open>\<open>date.getTime()\<close>: the time value, \<open>NaN\<close> for an Invalid Date.\<close>

fun getTime :: "int option \<Rightarrow> jsval" where
  "getTime None = JNaN"
| "getTime (Some t) = JNum t"

section \<open>Characters and strings\<close>

text \<open>
  A string is a list of characters with the codes 0 to 255. Of the white space
  characters of the language, seven lie in that range.
\<close>

definition is_digit :: "char \<Rightarrow> bool" where
  "is_digit c = (48 \<le> (of_char c :: nat) \<and> (of_char c :: nat) \<le> 57)"

text \<open>The class \<open>\s\<close> of the regular expressions, which is also what \<open>trim\<close> removes.\<close>

definition is_space :: "char \<Rightarrow> bool" where
  "is_space c = ((of_char c :: nat) \<in> {9, 10, 11, 12, 13, 32, 160})"

definition trim :: "string \<Rightarrow> string" where
  "trim s = rev (dropWhile is_space (rev (dropWhile is_space s)))"

text \<open>\<open>parseInt\<close> on a run of decimal digits.\<close>

definition parseInt_digits :: "string \<Rightarrow> int" where
  "parseInt_digits ds = foldl (\<lambda>a c. 10 * a + (int (of_char c) - 48)) 0 ds"

text \<open>\<open>s.split(c)\<close> for a one-character separator: never empty, one part more than separators.\<close>

fun split_on :: "char \<Rightarrow> string \<Rightarrow> string list" where
  "split_on c [] = [[]]"
| "split_on c (x # xs) =
     (if x = c then [] # split_on c xs
      else (case split_on c xs of p # ps \<Rightarrow> (x # p) # ps | [] \<Rightarrow> [[x]]))"

text \<open>\<open>s.replace(/[TZ]/g, ' ')\<close>.\<close>

definition replace_TZ :: "string \<Rightarrow> string" where
  "replace_TZ s = map (\<lambda>c. if c = CHR ''T'' \<or> c = CHR ''Z'' then CHR '' '' else c) s"

text \<open>
  \<open>s.replace(/[+-]\d{2}:\d{2}$/, '')\<close>: the pattern is anchored at the end of the string,
  so it can only match the last six characters.
\<close>

definition is_tz_suffix :: "string \<Rightarrow> bool" where
  "is_tz_suffix u =
     (case u of
        [a, b, c, d, e, f] \<Rightarrow>
          (a = CHR ''+'' \<or> a = CHR ''-'') \<and> is_digit b \<and> is_digit c \<and> d = CHR '':'' \<and>
          is_digit e \<and> is_digit f
      | _ \<Rightarrow> False)"

definition strip_tz :: "string \<Rightarrow> string" where
  "strip_tz s =
     (if 6 \<le> length s \<and> is_tz_suffix (drop (length s - 6) s)
      then take (length s - 6) s else s)"

text \<open>The cleaning chain \<open>replace(/[TZ]/g,' ').replace(/[+-]\d{2}:\d{2}$/,'').trim()\<close>.\<close>

definition clean_time :: "string \<Rightarrow> string" where
  "clean_time s = trim (strip_tz (replace_TZ s))"

subsection \<open>Number values\<close>

text \<open>
  The value of \<open>Number(s)\<close> is a double: \<open>NaN\<close>, an infinity, or a finite value.
  Every finite double is an integer divided by a power of two; \<open>Finite n d\<close> stands
  for \<open>n / 2^d\<close>, with \<open>n\<close> odd or \<open>d = 0\<close>. The sign of zero is not kept: nothing
  here tells \<open>-0\<close> from \<open>0\<close>.
\<close>

datatype number = NaN | PosInfinity | NegInfinity | Finite int nat

text \<open>The number of binary digits of a positive integer.\<close>

function bit_length :: "int \<Rightarrow> nat" where
  "bit_length n = (if n \<le> 0 then 0 else Suc (bit_length (n div 2)))"
  by pat_completeness auto

termination
  by (relation "measure nat") auto

declare bit_length.simps [simp del]

text \<open>The integer part of the binary logarithm of \<open>a / b\<close>, for positive \<open>a\<close> and \<open>b\<close>.\<close>

definition floor_log2 :: "int \<Rightarrow> int \<Rightarrow> int" where
  "floor_log2 a b =
     (let k = int (bit_length a) - int (bit_length b)
      in if b * 2 ^ nat k \<le> a * 2 ^ nat (- k) then k else k - 1)"

text \<open>\<open>a / b\<close> rounded to the nearest integer, a tie to the even one (\<open>a\<close> not negative, \<open>b\<close> positive).\<close>

definition round_half_even :: "int \<Rightarrow> int \<Rightarrow> int" where
  "round_half_even a b =
     (let q = a div b; r = a mod b
      in if 2 * r < b then q else if b < 2 * r then q + 1 else if even q then q else q + 1)"

text \<open>\<open>n / 2^d\<close> with the common factors of two removed.\<close>

fun reduce :: "int \<Rightarrow> nat \<Rightarrow> number" where
  "reduce n 0 = Finite n 0"
| "reduce n (Suc d) = (if even n then reduce (n div 2) d else Finite n (Suc d))"

text \<open>
  The double nearest to \<open>a / b\<close> (\<open>a\<close> not negative, \<open>b\<close> positive), negated when \<open>neg\<close>: 53 significant
  binary digits, fewer below \<open>2^-1022\<close>, ties to the even significand, and infinity from
  \<open>2^1024\<close> on.
\<close>

definition to_double :: "bool \<Rightarrow> int \<Rightarrow> int \<Rightarrow> number" where
  "to_double neg a b =
     (if a = 0 then Finite 0 0
      else
        (let k = max (floor_log2 a b) (- 1022) - 52;
             s = round_half_even (a * 2 ^ nat (- k)) (b * 2 ^ nat k)
         in if 971 < k \<or> (k = 971 \<and> 2 ^ 53 \<le> s)
            then (if neg then NegInfinity else PosInfinity)
            else if 0 \<le> k then Finite ((if neg then - s else s) * 2 ^ nat k) 0
            else reduce (if neg then - s else s) (nat (- k))))"

text \<open>\<open>x - 1\<close>.\<close>

fun minus_one :: "number \<Rightarrow> number" where
  "minus_one (Finite n d) = to_double (n < 2 ^ d) \<bar>n - 2 ^ d\<bar> (2 ^ d)"
| "minus_one x = x"

text \<open>The integer a finite number is truncated to (towards zero); \<open>None\<close> for \<open>NaN\<close>
  and the infinities.\<close>

fun truncated :: "number \<Rightarrow> int option" where
  "truncated (Finite n d) = Some (if 0 \<le> n then n div 2 ^ d else - ((- n) div 2 ^ d))"
| "truncated x = None"

text \<open>The comparison \<open>t < x\<close> of an integer with a number.\<close>

fun less_than :: "int \<Rightarrow> number \<Rightarrow> bool" where
  "less_than t (Finite n d) = (t * 2 ^ d < n)"
| "less_than t PosInfinity = True"
| "less_than t x = False"

subsection \<open>Numeric strings\<close>

definition digit_value :: "char \<Rightarrow> int" where
  "digit_value c =
     (let n = (of_char c :: int)
      in if n \<le> 57 then n - 48 else if n \<le> 70 then n - 55 else n - 87)"

text \<open>The digits of base \<open>b\<close>: \<open>0-9\<close>, then \<open>a-f\<close> or \<open>A-F\<close>.\<close>

definition is_digit_of :: "int \<Rightarrow> char \<Rightarrow> bool" where
  "is_digit_of b c =
     (let n = (of_char c :: int)
      in (48 \<le> n \<and> n \<le> 57 \<or> 65 \<le> n \<and> n \<le> 70 \<or> 97 \<le> n \<and> n \<le> 102) \<and> digit_value c < b)"

definition digits_value :: "int \<Rightarrow> string \<Rightarrow> int" where
  "digits_value b ds = foldl (\<lambda>a c. b * a + digit_value c) 0 ds"

text \<open>A signed integer as it follows \<open>e\<close> or \<open>E\<close>: digits, with one sign before them or none.\<close>

definition signed_integer :: "string \<Rightarrow> int option" where
  "signed_integer u =
     (let ds = (if u \<noteq> [] \<and> (hd u = CHR ''+'' \<or> hd u = CHR ''-'') then tl u else u)
      in if ds = [] \<or> \<not> list_all is_digit ds then None
         else Some (if hd u = CHR ''-'' then - digits_value 10 ds else digits_value 10 ds))"

text \<open>
  An unsigned decimal literal: digits with an optional fraction, or a fraction alone,
  and an optional exponent. The result \<open>(n, k)\<close> stands for \<open>n * 10^k\<close>.
\<close>

definition unsigned_decimal :: "string \<Rightarrow> (int \<times> int) option" where
  "unsigned_decimal u =
     (let is_e = (\<lambda>c. c = CHR ''e'' \<or> c = CHR ''E'');
          mant = takeWhile (\<lambda>c. \<not> is_e c) u;
          ex = dropWhile (\<lambda>c. \<not> is_e c) u;
          ip = takeWhile (\<lambda>c. c \<noteq> CHR ''.'') mant;
          fp = tl (dropWhile (\<lambda>c. c \<noteq> CHR ''.'') mant)
      in if \<not> list_all is_digit ip \<or> \<not> list_all is_digit fp \<or> (ip = [] \<and> fp = []) then None
         else if ex = [] then Some (digits_value 10 (ip @ fp), - int (length fp))
         else (case signed_integer (tl ex) of
                 None \<Rightarrow> None
               | Some x \<Rightarrow> Some (digits_value 10 (ip @ fp), x - int (length fp))))"

text \<open>
  \<open>Number(s)\<close> on a string. White space around the text is dropped; the empty string
  is 0; \<open>Infinity\<close> may carry a sign; a binary, octal or hexadecimal integer has the
  prefix \<open>0b\<close>, \<open>0o\<close> or \<open>0x\<close> (in either case) and no sign; a decimal literal may
  carry a sign; every other text is \<open>NaN\<close>. The value is the double nearest to the
  number written, as the engines compute it.
\<close>

definition js_Number :: "string \<Rightarrow> number" where
  "js_Number s =
     (let t = trim s;
          radix = (if length t < 2 \<or> hd t \<noteq> CHR ''0'' then 0
                   else if t ! 1 = CHR ''x'' \<or> t ! 1 = CHR ''X'' then 16
                   else if t ! 1 = CHR ''o'' \<or> t ! 1 = CHR ''O'' then 8
                   else if t ! 1 = CHR ''b'' \<or> t ! 1 = CHR ''B'' then 2 else (0::int));
          neg = (t \<noteq> [] \<and> hd t = CHR ''-'');
          u = (if t \<noteq> [] \<and> (hd t = CHR ''+'' \<or> hd t = CHR ''-'') then tl t else t)
      in if t = [] then Finite 0 0
         else if radix \<noteq> 0 then
           (if drop 2 t \<noteq> [] \<and> list_all (is_digit_of radix) (drop 2 t)
            then to_double False (digits_value radix (drop 2 t)) 1 else NaN)
         else if u = ''Infinity'' then (if neg then NegInfinity else PosInfinity)
         else (case unsigned_decimal u of
                 None \<Rightarrow> NaN
               | Some (n, k) \<Rightarrow> to_double neg (n * 10 ^ nat k) (10 ^ nat (- k))))"

section \<open>The host environment\<close>

text \<open>
  What the browser supplies and the repository does not define: the local time zone
  (\<open>utc_of_local\<close> turns a local time value into the UTC one, as the \<open>Date\<close>
  constructor with components does), the engine's string parser behind
  \<open>new Date(string)\<close> (\<open>date_parse\<close>, \<open>None\<close> for an Invalid Date), and the text
  \<open>date.toString()\<close> gives for a valid date, which names the time zone
  (\<open>date_toString\<close>).
\<close>

record env =
  utc_of_local :: "int \<Rightarrow> int"
  local_of_utc :: "int \<Rightarrow> int"
  date_parse :: "string \<Rightarrow> int option"
  date_toString :: "int \<Rightarrow> string"

subsection \<open>Date arithmetic of the language standard\<close>

definition DayFromYear :: "int \<Rightarrow> int" where
  "DayFromYear y = 365 * (y - 1970) + (y - 1969) div 4 - (y - 1901) div 100 + (y - 1601) div 400"

definition InLeapYear :: "int \<Rightarrow> bool" where
  "InLeapYear y = (y mod 4 = 0 \<and> (y mod 100 \<noteq> 0 \<or> y mod 400 = 0))"

definition month_start :: "bool \<Rightarrow> int \<Rightarrow> int" where
  "month_start leap m =
     (if m = 0 then 0 else if m = 1 then 31
      else (if leap then 1 else 0) +
        (if m = 2 then 59 else if m = 3 then 90 else if m = 4 then 120
         else if m = 5 then 151 else if m = 6 then 181 else if m = 7 then 212
         else if m = 8 then 243 else if m = 9 then 273 else if m = 10 then 304 else 334))"

definition MakeDay :: "int \<Rightarrow> int \<Rightarrow> int \<Rightarrow> int" where
  "MakeDay year month date =
     (let ym = year + month div 12; mn = month mod 12
      in DayFromYear ym + month_start (InLeapYear ym) mn + date - 1)"

definition time_clip :: "int \<Rightarrow> int option" where
  "time_clip t = (if \<bar>t\<bar> > 8640000000000000 then None else Some t)"

text \<open>Year and month (1 to 12) of a day number counted from 1 January 1970.\<close>

definition year_month_of_day :: "int \<Rightarrow> int \<times> int" where
  "year_month_of_day z =
     (let z1 = z + 719468;
          era = z1 div 146097;
          doe = z1 mod 146097;
          yoe = (doe - doe div 1460 + doe div 36524 - doe div 146096) div 365;
          doy = doe - (365 * yoe + yoe div 4 - yoe div 100);
          mp = (5 * doy + 2) div 153;
          m = (if mp < 10 then mp + 3 else mp - 9);
          y = yoe + era * 400
      in (if m \<le> 2 then y + 1 else y, m))"

text \<open>
  \<open>new Date(year, month, day, hour, minute, second)\<close>: the components are read as local
  time; a year from 0 to 99 means 1900 + year.
\<close>

definition new_Date_local :: "env \<Rightarrow> int \<Rightarrow> int \<Rightarrow> int \<Rightarrow> int \<Rightarrow> int \<Rightarrow> int \<Rightarrow> int option" where
  "new_Date_local e y m d h mi s =
     (let yr = (if 0 \<le> y \<and> y \<le> 99 then 1900 + y else y);
          t = MakeDay yr m d * 86400000 + h * 3600000 + mi * 60000 + s * 1000
      in time_clip (utc_of_local e t))"

text \<open>
  \<open>new Date(y, m, d, 0, 0, 0)\<close> on numbers: a component that is \<open>NaN\<close> or infinite
  gives an Invalid Date, a finite one is truncated to an integer. It is called on the
  parts of a text split at every \<open>-\<close>, which are never negative; a date too far
  from 1970 for a time value is an Invalid Date.
\<close>

definition new_Date_numbers :: "env \<Rightarrow> number \<Rightarrow> number \<Rightarrow> number \<Rightarrow> int option" where
  "new_Date_numbers e y m d =
     (case (truncated y, truncated m, truncated d) of
        (Some a, Some b, Some c) \<Rightarrow> new_Date_local e a b c 0 0 0
      | _ \<Rightarrow> None)"

text \<open>\<open>new Date(value)\<close> with one argument.\<close>

fun new_Date :: "env \<Rightarrow> jsval \<Rightarrow> int option" where
  "new_Date e (JStr s) = date_parse e s"
| "new_Date e (JDate d) = d"
| "new_Date e (JNum n) = time_clip n"
| "new_Date e JNaN = None"
| "new_Date e JUndefined = None"
| "new_Date e JNull = Some 0"
| "new_Date e (JBool b) = Some (if b then 1 else 0)"

section \<open>Time parsing (CacheManager.parseLocalTime, parseTimeToTimestamp)\<close>

text \<open>\<open>(\d{4})-\<close> at the start of the string.\<close>

definition match_year :: "string \<Rightarrow> (string \<times> string) option" where
  "match_year s =
     (case s of
        a # b # c # d # e # r \<Rightarrow>
          if is_digit a \<and> is_digit b \<and> is_digit c \<and> is_digit d \<and> e = CHR ''-''
          then Some ([a, b, c, d], r) else None
      | _ \<Rightarrow> None)"

text \<open>\<open>(\d{1,2})\<close> followed by the separator \<open>sep\<close>.\<close>

definition match_d12_sep :: "char \<Rightarrow> string \<Rightarrow> (string \<times> string) option" where
  "match_d12_sep sep s =
     (case s of
        a # b # r \<Rightarrow>
          if is_digit a \<and> is_digit b \<and> r \<noteq> [] \<and> hd r = sep then Some ([a, b], tl r)
          else if is_digit a \<and> b = sep then Some ([a], r)
          else None
      | _ \<Rightarrow> None)"

text \<open>\<open>(\d{1,2})\<close> with nothing required after it: two digits when there are two.\<close>

definition match_d12 :: "string \<Rightarrow> (string \<times> string) option" where
  "match_d12 s =
     (case s of
        [] \<Rightarrow> None
      | a # r \<Rightarrow>
          if is_digit a \<and> r \<noteq> [] \<and> is_digit (hd r) then Some ([a, hd r], tl r)
          else if is_digit a then Some ([a], r)
          else None)"

text \<open>The time group \<open>\s+(\d{1,2}):(\d{1,2}):(\d{1,2})\<close>.\<close>

definition match_time :: "string \<Rightarrow> (string \<times> string \<times> string) option" where
  "match_time s =
     (if s = [] \<or> \<not> is_space (hd s) then None
      else (case match_d12_sep CHR '':'' (dropWhile is_space s) of
              None \<Rightarrow> None
            | Some (h, r1) \<Rightarrow>
                (case match_d12_sep CHR '':'' r1 of
                   None \<Rightarrow> None
                 | Some (mi, r2) \<Rightarrow>
                     (case match_d12 r2 of
                        None \<Rightarrow> None
                      | Some (sec, r3) \<Rightarrow> Some (h, mi, sec)))))"

text \<open>\<open>^(\d{4})-(\d{1,2})-(\d{1,2})\<close> and what follows the day.\<close>

definition match_date :: "string \<Rightarrow> (string \<times> string \<times> string \<times> string) option" where
  "match_date s =
     (case match_year s of
        None \<Rightarrow> None
      | Some (y, r1) \<Rightarrow>
          (case match_d12_sep CHR ''-'' r1 of
             None \<Rightarrow> None
           | Some (mo, r2) \<Rightarrow>
               (case match_d12 r2 of
                  None \<Rightarrow> None
                | Some (d, r3) \<Rightarrow> Some (y, mo, d, r3))))"

text \<open>
  \<open>parseLocalTime(timeStr)\<close>. First the pattern with an optional time group (missing
  groups default to 0), then the pattern with a mandatory time group on the cleaned
  string, last the date-only fallback on the part before the first blank, split at
  \<open>-\<close> and converted with \<open>Number\<close>: with three parts or more it is
  \<open>new Date(parts[0], parts[1] - 1, parts[2], 0, 0, 0)\<close>.
\<close>

definition parseLocalTime :: "env \<Rightarrow> string \<Rightarrow> int option" where
  "parseLocalTime e timeStr =
     (if timeStr = [] then None
      else
        (case match_date timeStr of
           Some (y, mo, d, r) \<Rightarrow>
             (case match_time r of
                Some (h, mi, sec) \<Rightarrow>
                  new_Date_local e (parseInt_digits y) (parseInt_digits mo - 1) (parseInt_digits d)
                    (parseInt_digits h) (parseInt_digits mi) (parseInt_digits sec)
              | None \<Rightarrow>
                  new_Date_local e (parseInt_digits y) (parseInt_digits mo - 1) (parseInt_digits d)
                    0 0 0)
         | None \<Rightarrow>
             (case (case match_date (clean_time timeStr) of
                      None \<Rightarrow> None
                    | Some (y, mo, d, r) \<Rightarrow>
                        (case match_time r of
                           None \<Rightarrow> None
                         | Some (h, mi, sec) \<Rightarrow> Some (y, mo, d, h, mi, sec))) of
                Some (y, mo, d, h, mi, sec) \<Rightarrow>
                  new_Date_local e (parseInt_digits y) (parseInt_digits mo - 1) (parseInt_digits d)
                    (parseInt_digits h) (parseInt_digits mi) (parseInt_digits sec)
              | None \<Rightarrow>
                  (case map js_Number (split_on CHR ''-'' (hd (split_on CHR '' '' timeStr))) of
                     p0 # p1 # p2 # ps \<Rightarrow> new_Date_numbers e p0 (minus_one p1) p2
                   | _ \<Rightarrow> None))))"

text \<open>\<open>parseTimeToTimestamp(timeValue)\<close>.\<close>

fun parseTimeToTimestamp :: "env \<Rightarrow> jsval \<Rightarrow> jsval" where
  "parseTimeToTimestamp e (JNum n) = JNum (if n > 1000000000000 then n else n * 1000)"
| "parseTimeToTimestamp e JNaN = JNaN"
| "parseTimeToTimestamp e (JStr s) =
     (case parseLocalTime e (clean_time s) of None \<Rightarrow> JNum 0 | Some t \<Rightarrow> JNum t)"
| "parseTimeToTimestamp e (JDate d) = getTime d"
| "parseTimeToTimestamp e v = JNum 0"


section \<open>The local database (CacheManager)\<close>

text \<open>
  The IndexedDB database of the cache manager: the record table \<open>allDataCache\<close> keyed
  by the property \<open>id\<close>, the metadata table holding the single entry
  \<open>allDataMeta\<close>, and the two tables of precomputed aggregates,
  \<open>statisticsCache\<close> (entries \<open>stats_bucket\<close>, \<open>stats_customer\<close>) and
  \<open>dataStoreCache\<close> (entries \<open>datastore_<groupType>\<close>). \<open>init\<close> creates every
  one of these tables, so the guards on a missing table never fire after it.
\<close>

datatype idb_key = KNum int | KStr string | KDate int

text \<open>A value is a valid key when it is a number other than \<open>NaN\<close>, a string or a valid date.\<close>

fun key_of :: "jsval \<Rightarrow> idb_key option" where
  "key_of (JNum n) = Some (KNum n)"
| "key_of (JStr s) = Some (KStr s)"
| "key_of (JDate (Some t)) = Some (KDate t)"
| "key_of v = None"

record stat_entry =
  st_type :: string
  st_data :: obj
  st_timestamp :: int

record bucket_entry =
  be_groupType :: string
  be_buckets :: "(string \<times> jsval) list"
  be_recordCount :: int
  be_timestamp :: int

record db =
  allData :: "idb_key \<Rightarrow> obj option"
  meta :: "obj option"
  statisticsCache :: "string \<Rightarrow> stat_entry option"
  dataStoreCache :: "string \<Rightarrow> bucket_entry option"

text \<open>
  What a rejected promise carries: \<open>DataError\<close> is thrown by \<open>put\<close> and
  \<open>delete\<close> on an invalid key, \<open>TransactionError\<close> is the error of a request or
  transaction that the storage layer fails (the flag \<open>io\<close> of each operation says
  whether it commits), \<open>TypeError\<close> is a property read on \<open>undefined\<close>.
\<close>

datatype error = DataError | TransactionError | TypeError

subsection \<open>Number to text\<close>

fun string_of_nat :: "nat \<Rightarrow> string" where
  "string_of_nat n =
     (if n < 10 then [''0123456789'' ! n]
      else string_of_nat (n div 10) @ [''0123456789'' ! (n mod 10)])"

definition string_of_int :: "int \<Rightarrow> string" where
  "string_of_int i = (if i < 0 then CHR ''-'' # string_of_nat (nat (- i)) else string_of_nat (nat i))"

text \<open>
  The text of a date as the standard lays it out, for a zone \<open>offset\<close> minutes east of
  Greenwich that the engine calls \<open>zone\<close>: day of the week, month, day, year, time,
  the offset and the name of the zone.
\<close>

definition pad2 :: "int \<Rightarrow> string" where
  "pad2 n = (if n < 10 then ''0'' else []) @ string_of_int n"

definition date_text :: "int \<Rightarrow> string \<Rightarrow> int \<Rightarrow> string" where
  "date_text offset zone t =
     (let lt = t + offset * 60000;
          day = lt div 86400000;
          ms = lt mod 86400000;
          (y, m) = year_month_of_day day;
          yt = string_of_int \<bar>y\<bar>
      in [''Sun'', ''Mon'', ''Tue'', ''Wed'', ''Thu'', ''Fri'', ''Sat''] ! nat ((day + 4) mod 7) @ '' '' @
         [''Jan'', ''Feb'', ''Mar'', ''Apr'', ''May'', ''Jun'', ''Jul'', ''Aug'', ''Sep'', ''Oct'', ''Nov'',
          ''Dec''] ! nat (m - 1) @ '' '' @
         pad2 (day - MakeDay y (m - 1) 1 + 1) @ '' '' @
         (if y < 0 then ''-'' else []) @ replicate (4 - length yt) CHR ''0'' @ yt @ '' '' @
         pad2 (ms div 3600000) @ '':'' @ pad2 (ms div 60000 mod 60) @ '':'' @ pad2 (ms div 1000 mod 60) @
         '' GMT'' @ (if offset < 0 then ''-'' else ''+'') @
         pad2 (\<bar>offset\<bar> div 60) @ pad2 (\<bar>offset\<bar> mod 60) @ '' ('' @ zone @ '')'')"

subsection \<open>Deriving the stored record\<close>

text \<open>
  \<open>updateRecord\<close> and \<open>batchUpdateRecords\<close>:
  \<open>if (!record.timestamp) record.timestamp = new Date(record.start_time).getTime()\<close>.
\<close>

definition with_timestamp :: "env \<Rightarrow> obj \<Rightarrow> obj" where
  "with_timestamp e record =
     (if \<not> truthy (get_prop record ''timestamp'')
      then record(''timestamp'' \<mapsto> getTime (new_Date e (get_prop record ''start_time'')))
      else record)"

text \<open>
  The object literal shared by \<open>storeBatch\<close>, \<open>appendData\<close> and
  \<open>preprocessRecords\<close>: eight canonical properties, each read from the English name or
  from the Chinese column name (written here in pinyin with the prefix \<open>cn_\<close>), then
  the spread \<open>...record\<close>, whose own properties override the eight. \<open>gen\<close> is the
  generated identifier used when the record has none.
\<close>

definition standardRecord :: "jsval \<Rightarrow> obj \<Rightarrow> obj" where
  "standardRecord gen record =
     [''id'' \<mapsto> js_or (get_prop record ''plan_id'')
                 (js_or (get_prop record ''cn_jihua_ID'') (js_or (get_prop record ''id'') gen)),
      ''start_time'' \<mapsto> js_or (get_prop record ''start_time'') (get_prop record ''cn_kaishi_shijian''),
      ''task_result'' \<mapsto> js_or (get_prop record ''task_result'') (get_prop record ''cn_renwu_jieguo_zhuangtai''),
      ''task_type'' \<mapsto> js_or (get_prop record ''task_type'') (get_prop record ''cn_renwu_leixing''),
      ''customer'' \<mapsto> js_or (get_prop record ''customer'') (get_prop record ''cn_suoshu_kehu''),
      ''satellite_name'' \<mapsto> js_or (get_prop record ''satellite_name'') (get_prop record ''cn_weixing_mingcheng''),
      ''station_name'' \<mapsto> js_or (get_prop record ''station_name'') (get_prop record ''cn_cezhan_mingcheng''),
      ''station_id'' \<mapsto> js_or (get_prop record ''station_id'') (get_prop record ''cn_cezhan_ID'')]
     ++ record"

text \<open>
  \<open>if (standardRecord.start_time) standardRecord.timestamp =
  this.parseTimeToTimestamp(standardRecord.start_time)\<close>.
\<close>

definition derive_timestamp :: "env \<Rightarrow> obj \<Rightarrow> obj" where
  "derive_timestamp e sr =
     (if truthy (get_prop sr ''start_time'')
      then sr(''timestamp'' \<mapsto> parseTimeToTimestamp e (get_prop sr ''start_time''))
      else sr)"

text \<open>One record of \<open>DataPreloader.preprocessRecords\<close> (the list is then sorted by timestamp).\<close>

definition preprocess_record :: "env \<Rightarrow> jsval \<Rightarrow> obj \<Rightarrow> obj" where
  "preprocess_record e gen record = derive_timestamp e (standardRecord gen record)"

text \<open>One record of \<open>appendData\<close>; the generated identifier is \<open>record_<now>_<appendedCount>\<close>,
  and \<open>appendedCount\<close> is still 0 while the loop runs (it grows in the success callbacks).\<close>

definition append_record :: "env \<Rightarrow> int \<Rightarrow> obj \<Rightarrow> obj" where
  "append_record e now record =
     derive_timestamp e (standardRecord (JStr (''record_'' @ string_of_int now @ ''_0'')) record)"

subsection \<open>Metadata\<close>

definition default_meta :: "int \<Rightarrow> obj" where
  "default_meta now =
     [''key'' \<mapsto> JStr ''allDataMeta'', ''totalCount'' \<mapsto> JNum 0,
      ''lastUpdated'' \<mapsto> JNum now, ''lastSyncTime'' \<mapsto> JNum now]"

text \<open>\<open>meta = result || {...}; meta.lastUpdated = Date.now(); meta.lastSyncTime = Date.now()\<close>.\<close>

definition touch_meta :: "int \<Rightarrow> obj option \<Rightarrow> obj" where
  "touch_meta now m =
     ((case m of None \<Rightarrow> default_meta now | Some mo \<Rightarrow> mo)
        (''lastUpdated'' \<mapsto> JNum now, ''lastSyncTime'' \<mapsto> JNum now))"

text \<open>\<open>(meta.totalCount || 0) + appendedCount\<close>; a stored count is a number, a count of
  another kind is added as the language does: the number is appended to a string and to
  the text of a date, a boolean and \<open>null\<close> count as numbers.\<close>

fun js_plus :: "env \<Rightarrow> jsval \<Rightarrow> int \<Rightarrow> jsval" where
  "js_plus e (JNum a) n = JNum (a + n)"
| "js_plus e (JStr s) n = JStr (s @ string_of_int n)"
| "js_plus e (JBool b) n = JNum ((if b then 1 else 0) + n)"
| "js_plus e JNull n = JNum n"
| "js_plus e (JDate None) n = JStr (''Invalid Date'' @ string_of_int n)"
| "js_plus e (JDate (Some t)) n = JStr (date_toString e t @ string_of_int n)"
| "js_plus e JUndefined n = JNaN"
| "js_plus e JNaN n = JNaN"

definition append_meta :: "env \<Rightarrow> int \<Rightarrow> int \<Rightarrow> obj option \<Rightarrow> obj" where
  "append_meta e now n m =
     (let mo = (case m of
                  None \<Rightarrow> [''key'' \<mapsto> JStr ''allDataMeta'', ''totalCount'' \<mapsto> JNum 0,
                            ''lastUpdated'' \<mapsto> JNum now]
                | Some mo \<Rightarrow> mo)
      in mo(''totalCount'' \<mapsto> js_plus e (js_or (get_prop mo ''totalCount'') (JNum 0)) n,
            ''lastUpdated'' \<mapsto> JNum now))"

subsection \<open>Write operations\<close>

text \<open>
  Every operation takes the clock reading \<open>now\<close> and the storage outcome \<open>io\<close>, and
  returns what its promise settles to together with the database afterwards.
\<close>

definition updateRecord :: "env \<Rightarrow> int \<Rightarrow> bool \<Rightarrow> db \<Rightarrow> obj \<Rightarrow> (error + obj) \<times> db" where
  "updateRecord e now io d record =
     (let r = with_timestamp e record in
      case key_of (get_prop r ''id'') of
        None \<Rightarrow> (Inl DataError, d)
      | Some k \<Rightarrow>
          if \<not> io then (Inl TransactionError, d)
          else (Inr r, d\<lparr>allData := (allData d)(k \<mapsto> r),
                         meta := Some (touch_meta now (meta d))\<rparr>))"

text \<open>
  The loop of \<open>batchUpdateRecords\<close>: \<open>put\<close> throws at the first record without a valid
  key, the records before it stay queued in the transaction. The flag says whether the
  loop ran to its end.
\<close>

fun put_all :: "env \<Rightarrow> (idb_key \<Rightarrow> obj option) \<Rightarrow> obj list \<Rightarrow> bool \<times> (idb_key \<Rightarrow> obj option)" where
  "put_all e st [] = (True, st)"
| "put_all e st (record # rs) =
     (let r = with_timestamp e record in
      case key_of (get_prop r ''id'') of
        None \<Rightarrow> (False, st)
      | Some k \<Rightarrow> put_all e (st(k \<mapsto> r)) rs)"

text \<open>
  When the loop throws, the completion handler is never installed: the promise is
  rejected, the queued writes commit and the metadata is not touched. When the
  transaction fails, nothing is written.
\<close>

definition batchUpdateRecords :: "env \<Rightarrow> int \<Rightarrow> bool \<Rightarrow> db \<Rightarrow> obj list \<Rightarrow> (error + nat) \<times> db" where
  "batchUpdateRecords e now io d records =
     (if records = [] then (Inr 0, d)
      else
        (case put_all e (allData d) records of
           (False, st) \<Rightarrow> (Inl DataError, if io then d\<lparr>allData := st\<rparr> else d)
         | (True, st) \<Rightarrow>
             if \<not> io then (Inl TransactionError, d)
             else (Inr (length records),
                   d\<lparr>allData := st, meta := Some (touch_meta now (meta d))\<rparr>)))"

fun append_all :: "env \<Rightarrow> int \<Rightarrow> (idb_key \<Rightarrow> obj option) \<Rightarrow> obj list \<Rightarrow> bool \<times> (idb_key \<Rightarrow> obj option)" where
  "append_all e now st [] = (True, st)"
| "append_all e now st (record # rs) =
     (let r = append_record e now record in
      case key_of (get_prop r ''id'') of
        None \<Rightarrow> (False, st)
      | Some k \<Rightarrow> append_all e now (st(k \<mapsto> r)) rs)"

definition appendData :: "env \<Rightarrow> int \<Rightarrow> bool \<Rightarrow> db \<Rightarrow> obj list \<Rightarrow> (error + nat) \<times> db" where
  "appendData e now io d newRecords =
     (if newRecords = [] then (Inr 0, d)
      else
        (case append_all e now (allData d) newRecords of
           (False, st) \<Rightarrow> (Inl DataError, if io then d\<lparr>allData := st\<rparr> else d)
         | (True, st) \<Rightarrow>
             if \<not> io then (Inl TransactionError, d)
             else (Inr (length newRecords),
                   d\<lparr>allData := st,
                     meta := Some (append_meta e now (int (length newRecords)) (meta d))\<rparr>)))"

definition deleteRecord :: "int \<Rightarrow> bool \<Rightarrow> db \<Rightarrow> jsval \<Rightarrow> (error + jsval) \<times> db" where
  "deleteRecord now io d recordId =
     (case key_of recordId of
        None \<Rightarrow> (Inl DataError, d)
      | Some k \<Rightarrow>
          if \<not> io then (Inl TransactionError, d)
          else (Inr recordId,
                d\<lparr>allData := (allData d)(k := None),
                  meta := (case meta d of
                             None \<Rightarrow> None
                           | Some m \<Rightarrow> Some (m(''lastUpdated'' \<mapsto> JNum now,
                                                ''lastSyncTime'' \<mapsto> JNum now)))\<rparr>))"

subsection \<open>The sync cursor and the sync time\<close>

text \<open>\<open>meta?.lastSyncTime || 0\<close> and \<open>meta?.lastChangeLogId || 0\<close>; a failed read resolves to 0.\<close>

definition getLastSyncTime :: "bool \<Rightarrow> db \<Rightarrow> jsval" where
  "getLastSyncTime io d =
     (if \<not> io then JNum 0
      else (case meta d of None \<Rightarrow> JNum 0 | Some m \<Rightarrow> js_or (get_prop m ''lastSyncTime'') (JNum 0)))"

definition getLastChangeLogId :: "bool \<Rightarrow> db \<Rightarrow> jsval" where
  "getLastChangeLogId io d =
     (if \<not> io then JNum 0
      else (case meta d of None \<Rightarrow> JNum 0 | Some m \<Rightarrow> js_or (get_prop m ''lastChangeLogId'') (JNum 0)))"

definition saveLastChangeLogId :: "int \<Rightarrow> bool \<Rightarrow> db \<Rightarrow> jsval \<Rightarrow> (error + unit) \<times> db" where
  "saveLastChangeLogId now io d changeLogId =
     (if \<not> io then (Inl TransactionError, d)
      else (Inr (),
            d\<lparr>meta := Some
                ((case meta d of
                    None \<Rightarrow> (default_meta now)(''lastChangeLogId'' \<mapsto> JNum 0)
                  | Some m \<Rightarrow> m)
                 (''lastChangeLogId'' \<mapsto> changeLogId, ''lastUpdated'' \<mapsto> JNum now,
                  ''lastSyncTime'' \<mapsto> JNum now))\<rparr>))"

subsection \<open>Precomputed aggregates\<close>

definition saveStatistics :: "int \<Rightarrow> db \<Rightarrow> string \<Rightarrow> obj \<Rightarrow> db" where
  "saveStatistics now d type data =
     d\<lparr>statisticsCache := (statisticsCache d)
          (''stats_'' @ type \<mapsto> \<lparr>st_type = type, st_data = data, st_timestamp = now\<rparr>)\<rparr>"

text \<open>\<open>getStatistics(type)\<close>: the cached data, \<open>None\<close> for \<open>null\<close>.\<close>

definition getStatistics :: "db \<Rightarrow> string \<Rightarrow> obj option" where
  "getStatistics d type =
     (case statisticsCache d (''stats_'' @ type) of None \<Rightarrow> None | Some r \<Rightarrow> Some (st_data r))"

definition clearStatisticsCache :: "db \<Rightarrow> db" where
  "clearStatisticsCache d = d\<lparr>statisticsCache := (\<lambda>k. None)\<rparr>"

definition saveDataStoreBuckets :: "int \<Rightarrow> db \<Rightarrow> string \<Rightarrow> (string \<times> jsval) list \<Rightarrow> int \<Rightarrow> db" where
  "saveDataStoreBuckets now d groupType buckets recordCount =
     d\<lparr>dataStoreCache := (dataStoreCache d)
          (''datastore_'' @ groupType \<mapsto>
             \<lparr>be_groupType = groupType, be_buckets = buckets,
              be_recordCount = recordCount, be_timestamp = now\<rparr>)\<rparr>"

text \<open>\<open>ToNumber\<close>, for the comparison \<open>cacheData.timestamp < lastSyncTime\<close>.\<close>

fun to_number :: "jsval \<Rightarrow> number" where
  "to_number (JNum n) = Finite n 0"
| "to_number JNaN = NaN"
| "to_number JUndefined = NaN"
| "to_number JNull = Finite 0 0"
| "to_number (JBool b) = Finite (if b then 1 else 0) 0"
| "to_number (JStr s) = js_Number s"
| "to_number (JDate None) = NaN"
| "to_number (JDate (Some t)) = Finite t 0"

text \<open>
  \<open>loadDataStoreBuckets(groupType, lastSyncTime)\<close>: no entry, an entry written before
  \<open>lastSyncTime\<close>, and an entry older than 24 hours all give \<open>null\<close>.
\<close>

definition loadDataStoreBuckets :: "int \<Rightarrow> db \<Rightarrow> string \<Rightarrow> jsval \<Rightarrow> bucket_entry option" where
  "loadDataStoreBuckets now d groupType lastSyncTime =
     (case dataStoreCache d (''datastore_'' @ groupType) of
        None \<Rightarrow> None
      | Some c \<Rightarrow>
          if truthy lastSyncTime \<and> less_than (be_timestamp c) (to_number lastSyncTime)
          then None
          else if now - be_timestamp c > 24 * 60 * 60 * 1000 then None
          else Some c)"

definition clearDataStoreBucketsCache :: "db \<Rightarrow> db" where
  "clearDataStoreBucketsCache d = d\<lparr>dataStoreCache := (\<lambda>k. None)\<rparr>"


section \<open>Live push events (WebSocketSyncManager.handleDataChange)\<close>

text \<open>\<open>toLowerCase\<close> on the letters A to Z.\<close>

definition to_lower :: "string \<Rightarrow> string" where
  "to_lower s =
     map (\<lambda>c. case map_of (zip ''ABCDEFGHIJKLMNOPQRSTUVWXYZ'' ''abcdefghijklmnopqrstuvwxyz'') c of
                 None \<Rightarrow> c | Some l \<Rightarrow> l) s"

text \<open>What the callback \<open>onSyncUpdate\<close> is handed: the operation and the record.\<close>

datatype sync_event = DataChanged string "obj option" | BatchUpdated nat

text \<open>
  \<open>handleDataChange({operation, record})\<close>. The body is one \<open>try\<close> block: the first
  component is \<open>Inl\<close> when its \<open>catch\<close> ran (the error is logged, nothing is thrown
  on), \<open>Inr\<close> when the block ran to its end. \<open>record\<close> is \<open>None\<close> when the message
  carries no record object.
\<close>

definition handleDataChange ::
  "env \<Rightarrow> int \<Rightarrow> bool \<Rightarrow> db \<Rightarrow> jsval \<Rightarrow> obj option \<Rightarrow> (error + unit) \<times> sync_event list \<times> db" where
  "handleDataChange e now io d operation record =
     (case operation of
        JStr s \<Rightarrow>
          (let op = to_lower s in
           if op = ''insert'' \<or> op = ''update'' then
             (case record of
                None \<Rightarrow> (Inl TypeError, [], d)
              | Some r \<Rightarrow>
                  (case updateRecord e now io d r of
                     (Inl er, d') \<Rightarrow> (Inl er, [], d')
                   | (Inr r', d') \<Rightarrow> (Inr (), [DataChanged op (Some r')], d')))
           else if op = ''delete'' then
             (case record of
                None \<Rightarrow> (Inl TypeError, [], d)
              | Some r \<Rightarrow>
                  (case deleteRecord now io d (get_prop r ''id'') of
                     (Inl er, d') \<Rightarrow> (Inl er, [], d')
                   | (Inr i, d') \<Rightarrow> (Inr (), [DataChanged op (Some r)], d')))
           else (Inr (), [DataChanged op record], d))
      | _ \<Rightarrow> (Inl TypeError, [], d))"

text \<open>\<open>handleBatchUpdate({records})\<close>.\<close>

definition handleBatchUpdate ::
  "env \<Rightarrow> int \<Rightarrow> bool \<Rightarrow> db \<Rightarrow> obj list \<Rightarrow> (error + unit) \<times> sync_event list \<times> db" where
  "handleBatchUpdate e now io d records =
     (case batchUpdateRecords e now io d records of
        (Inl er, d') \<Rightarrow> (Inl er, [], d')
      | (Inr n, d') \<Rightarrow> (Inr (), [BatchUpdated n], d'))"

text \<open>The stored total count, \<open>undefined\<close> when there is no metadata entry.\<close>

definition totalCount :: "db \<Rightarrow> jsval" where
  "totalCount d = (case meta d of None \<Rightarrow> JUndefined | Some m \<Rightarrow> get_prop m ''totalCount'')"

section \<open>Example data\<close>

text \<open>
  A browser in the UTC zone whose engine, as the language standard allows, gives an
  Invalid Date for the strings it is handed in the examples below, none of which is in
  the ISO format (they separate date and time by a blank).
\<close>

definition env_utc :: env where
  "env_utc = \<lparr>utc_of_local = (\<lambda>t. t), local_of_utc = (\<lambda>t. t), date_parse = (\<lambda>s. None),
               date_toString = date_text 0 ''Coordinated Universal Time''\<rparr>"

definition empty_db :: db where
  "empty_db = \<lparr>allData = (\<lambda>k. None), meta = None,
               statisticsCache = (\<lambda>k. None), dataStoreCache = (\<lambda>k. None)\<rparr>"

definition rec_P1 :: obj where
  "rec_P1 = [''id'' \<mapsto> JStr ''P1'', ''plan_id'' \<mapsto> JStr ''P1'',
             ''start_time'' \<mapsto> JStr ''2024-01-15 10:30:00'', ''customer'' \<mapsto> JStr ''ACME'']"

definition rec_P2 :: obj where
  "rec_P2 = [''id'' \<mapsto> JStr ''P2'', ''plan_id'' \<mapsto> JStr ''P2'',
             ''start_time'' \<mapsto> JStr ''2024-02-01 08:00:00'', ''customer'' \<mapsto> JStr ''ACME'']"

text \<open>A database holding the record \<open>P1\<close> and a metadata entry that counts it.\<close>

definition db_P1 :: db where
  "db_P1 = \<lparr>allData = [KStr ''P1'' \<mapsto> rec_P1],
            meta = Some [''key'' \<mapsto> JStr ''allDataMeta'', ''totalCount'' \<mapsto> JNum 1,
                         ''lastUpdated'' \<mapsto> JNum 1000, ''lastSyncTime'' \<mapsto> JNum 1000,
                         ''lastChangeLogId'' \<mapsto> JNum 100],
            statisticsCache = (\<lambda>k. None), dataStoreCache = (\<lambda>k. None)\<rparr>"

section \<open>Deleting a record\<close>

lemma deleteRecord_allData:
  "allData (snd (deleteRecord now io d rid)) k =
     (if io \<and> key_of rid = Some k then None else allData d k)"
  by (auto simp: deleteRecord_def split: option.splits)

lemma deleteRecord_totalCount:
  "totalCount (snd (deleteRecord now io d rid)) = totalCount d"
  by (auto simp: deleteRecord_def totalCount_def get_prop_def split: option.splits)

lemma deleteRecord_meta_frame:
  "meta d = Some m \<Longrightarrow> f \<noteq> ''lastUpdated'' \<Longrightarrow> f \<noteq> ''lastSyncTime'' \<Longrightarrow>
   (\<exists>m'. meta (snd (deleteRecord now io d rid)) = Some m' \<and> m' f = m f)"
  by (auto simp: deleteRecord_def split: option.splits)

lemma deleteRecord_meta_none:
  "(meta (snd (deleteRecord now io d rid)) = None) = (meta d = None)"
  by (auto simp: deleteRecord_def split: option.splits)

lemma deleteRecord_caches:
  "statisticsCache (snd (deleteRecord now io d rid)) = statisticsCache d \<and>
   dataStoreCache (snd (deleteRecord now io d rid)) = dataStoreCache d"
  by (auto simp: deleteRecord_def split: option.splits)

lemma to_lower_delete: "to_lower ''delete'' = ''delete''"
  by (simp add: to_lower_def)

lemma handle_delete:
  "handleDataChange e now io d (JStr ''delete'') (Some r) =
     (case deleteRecord now io d (get_prop r ''id'') of
        (Inl er, d') \<Rightarrow> (Inl er, [], d')
      | (Inr i, d') \<Rightarrow> (Inr (), [DataChanged ''delete'' (Some r)], d'))"
  by (simp add: handleDataChange_def to_lower_delete)

text \<open>
  Claim C9. A pushed \<open>delete\<close> for an identity that is a valid key and is not stored
  runs to the end of its \<open>try\<close> block (no error is caught or thrown, the storage layer
  accepting the request) and leaves the record table and the total count as they were.
  In every case, whatever the identity, the clock and the storage outcome,
  \<open>deleteRecord\<close> leaves the total count, the records under every other key, every
  metadata property other than \<open>lastUpdated\<close> and \<open>lastSyncTime\<close>, the presence of
  the metadata entry and both aggregate tables unchanged.
\<close>

theorem C9_deleteRecord_frame:
  "(key_of (get_prop r ''id'') = Some k \<and> allData d k = None \<longrightarrow>
      fst (handleDataChange e now True d (JStr ''delete'') (Some r)) = Inr () \<and>
      allData (snd (snd (handleDataChange e now True d (JStr ''delete'') (Some r)))) = allData d \<and>
      totalCount (snd (snd (handleDataChange e now True d (JStr ''delete'') (Some r)))) = totalCount d) \<and>
   totalCount (snd (deleteRecord now io d rid)) = totalCount d \<and>
   (\<forall>k'. key_of rid \<noteq> Some k' \<longrightarrow> allData (snd (deleteRecord now io d rid)) k' = allData d k') \<and>
   (\<forall>m f. meta d = Some m \<and> f \<noteq> ''lastUpdated'' \<and> f \<noteq> ''lastSyncTime'' \<longrightarrow>
      (\<exists>m'. meta (snd (deleteRecord now io d rid)) = Some m' \<and> m' f = m f)) \<and>
   ((meta (snd (deleteRecord now io d rid)) = None) = (meta d = None)) \<and>
   statisticsCache (snd (deleteRecord now io d rid)) = statisticsCache d \<and>
   dataStoreCache (snd (deleteRecord now io d rid)) = dataStoreCache d"
proof -
  have push: "key_of (get_prop r ''id'') = Some k \<and> allData d k = None \<longrightarrow>
      fst (handleDataChange e now True d (JStr ''delete'') (Some r)) = Inr () \<and>
      allData (snd (snd (handleDataChange e now True d (JStr ''delete'') (Some r)))) = allData d \<and>
      totalCount (snd (snd (handleDataChange e now True d (JStr ''delete'') (Some r)))) = totalCount d"
  proof
    assume a: "key_of (get_prop r ''id'') = Some k \<and> allData d k = None"
    have del: "deleteRecord now True d (get_prop r ''id'') =
        (Inr (get_prop r ''id''), snd (deleteRecord now True d (get_prop r ''id'')))"
      using a by (simp add: deleteRecord_def)
    have same: "allData (snd (deleteRecord now True d (get_prop r ''id''))) = allData d"
    proof
      fix k'
      show "allData (snd (deleteRecord now True d (get_prop r ''id''))) k' = allData d k'"
        using a by (auto simp: deleteRecord_allData)
    qed
    have h: "handleDataChange e now True d (JStr ''delete'') (Some r) =
        (Inr (), [DataChanged ''delete'' (Some r)], snd (deleteRecord now True d (get_prop r ''id'')))"
      by (subst handle_delete, subst del) simp
    show "fst (handleDataChange e now True d (JStr ''delete'') (Some r)) = Inr () \<and>
      allData (snd (snd (handleDataChange e now True d (JStr ''delete'') (Some r)))) = allData d \<and>
      totalCount (snd (snd (handleDataChange e now True d (JStr ''delete'') (Some r)))) = totalCount d"
      by (simp add: h same deleteRecord_totalCount)
  qed
  have others: "\<forall>k'. key_of rid \<noteq> Some k' \<longrightarrow> allData (snd (deleteRecord now io d rid)) k' = allData d k'"
    by (simp add: deleteRecord_allData)
  have mframe: "\<forall>m f. meta d = Some m \<and> f \<noteq> ''lastUpdated'' \<and> f \<noteq> ''lastSyncTime'' \<longrightarrow>
      (\<exists>m'. meta (snd (deleteRecord now io d rid)) = Some m' \<and> m' f = m f)"
    using deleteRecord_meta_frame by blast
  show ?thesis
    using push others mframe deleteRecord_totalCount deleteRecord_meta_none deleteRecord_caches
    by blast
qed

theorem C9_deleteRecord_frame_witness:
  "key_of (get_prop rec_P2 ''id'') = Some (KStr ''P2'') \<and> allData db_P1 (KStr ''P2'') = None \<and>
   fst (handleDataChange env_utc 2000 True db_P1 (JStr ''delete'') (Some rec_P2)) = Inr () \<and>
   allData (snd (snd (handleDataChange env_utc 2000 True db_P1 (JStr ''delete'') (Some rec_P2)))) = allData db_P1 \<and>
   totalCount (snd (snd (handleDataChange env_utc 2000 True db_P1 (JStr ''delete'') (Some rec_P2)))) = JNum 1 \<and>
   totalCount (snd (deleteRecord 2000 True db_P1 (JStr ''P1''))) = JNum 1 \<and>
   allData (snd (deleteRecord 2000 True db_P1 (JStr ''P1''))) (KStr ''P1'') = None"
proof -
  have k: "key_of (get_prop rec_P2 ''id'') = Some (KStr ''P2'')"
    by (simp add: rec_P2_def get_prop_def)
  have a: "allData db_P1 (KStr ''P2'') = None"
    by (simp add: db_P1_def)
  have t: "totalCount db_P1 = JNum 1"
    by (simp add: db_P1_def totalCount_def get_prop_def)
  have g: "allData (snd (deleteRecord 2000 True db_P1 (JStr ''P1''))) (KStr ''P1'') = None"
    by (simp add: deleteRecord_def db_P1_def)
  show ?thesis
    using C9_deleteRecord_frame [where r = rec_P2 and k = "KStr ''P2''" and d = db_P1 and e = env_utc
        and now = 2000 and io = True and rid = "JStr ''P1''"] k a t g
    by simp
qed

section \<open>Writes and the aggregate tables\<close>

lemma updateRecord_caches:
  "statisticsCache (snd (updateRecord e now io d r)) = statisticsCache d \<and>
   dataStoreCache (snd (updateRecord e now io d r)) = dataStoreCache d"
  by (simp add: updateRecord_def Let_def split: option.splits)

lemma batchUpdateRecords_caches:
  "statisticsCache (snd (batchUpdateRecords e now io d rs)) = statisticsCache d \<and>
   dataStoreCache (snd (batchUpdateRecords e now io d rs)) = dataStoreCache d"
  by (simp add: batchUpdateRecords_def split: prod.splits bool.splits)

lemma appendData_caches:
  "statisticsCache (snd (appendData e now io d rs)) = statisticsCache d \<and>
   dataStoreCache (snd (appendData e now io d rs)) = dataStoreCache d"
  by (simp add: appendData_def split: prod.splits bool.splits)

lemma getStatistics_cong:
  "statisticsCache d' = statisticsCache d \<Longrightarrow> getStatistics d' ty = getStatistics d ty"
  by (simp add: getStatistics_def)

lemma touch_meta_lastSyncTime: "get_prop (touch_meta now m) ''lastSyncTime'' = JNum now"
  by (simp add: touch_meta_def get_prop_def)

lemma js_or_num_zero: "js_or (JNum n) (JNum 0) = JNum n"
  by (simp add: js_or_def)

lemma updateRecord_lastSyncTime:
  "key_of (get_prop (with_timestamp e r) ''id'') \<noteq> None \<Longrightarrow>
   getLastSyncTime True (snd (updateRecord e now True d r)) = JNum now"
  by (auto simp: updateRecord_def Let_def getLastSyncTime_def touch_meta_lastSyncTime js_or_num_zero
      split: option.splits)

lemma batchUpdateRecords_lastSyncTime:
  "fst (batchUpdateRecords e now True d rs) = Inr n \<Longrightarrow> rs \<noteq> [] \<Longrightarrow>
   getLastSyncTime True (snd (batchUpdateRecords e now True d rs)) = JNum now"
  by (auto simp: batchUpdateRecords_def getLastSyncTime_def touch_meta_lastSyncTime js_or_num_zero
      split: prod.splits bool.splits)

lemma deleteRecord_lastSyncTime:
  "key_of rid \<noteq> None \<Longrightarrow> meta d \<noteq> None \<Longrightarrow>
   getLastSyncTime True (snd (deleteRecord now True d rid)) = JNum now"
  by (auto simp: deleteRecord_def getLastSyncTime_def get_prop_def js_or_num_zero
      split: option.splits)

lemma load_stale:
  "dataStoreCache d' (''datastore_'' @ g) = Some c \<Longrightarrow> be_timestamp c < now \<Longrightarrow> now \<noteq> 0 \<Longrightarrow>
   loadDataStoreBuckets t d' g (JNum now) = None"
  by (simp add: loadDataStoreBuckets_def)

definition stats_example :: obj where
  "stats_example = [''total'' \<mapsto> JNum 1]"

text \<open>
  Claim C2, as the code has it. No write path removes an aggregate entry:
  \<open>updateRecord\<close>, \<open>batchUpdateRecords\<close>, \<open>appendData\<close> and \<open>deleteRecord\<close> leave
  both aggregate tables as they were, so \<open>getStatistics\<close> answers after the write what
  it answered before. A bucket entry becomes unavailable only through the staleness test
  of \<open>loadDataStoreBuckets\<close>: after a successful \<open>updateRecord\<close>, a successful
  non-empty \<open>batchUpdateRecords\<close> or a \<open>deleteRecord\<close> on a database that has its
  metadata entry, made at a clock reading \<open>now\<close> other than 0, an entry written before
  \<open>now\<close> is not returned to a caller that passes the stored \<open>lastSyncTime\<close>; and
  \<open>clearDataStoreBucketsCache\<close> removes every bucket entry.
\<close>

theorem C2_writes_keep_aggregates:
  "getStatistics (snd (updateRecord e now io d r)) ty = getStatistics d ty \<and>
   getStatistics (snd (batchUpdateRecords e now io d rs)) ty = getStatistics d ty \<and>
   getStatistics (snd (appendData e now io d rs)) ty = getStatistics d ty \<and>
   getStatistics (snd (deleteRecord now io d rid)) ty = getStatistics d ty \<and>
   dataStoreCache (snd (updateRecord e now io d r)) = dataStoreCache d \<and>
   dataStoreCache (snd (batchUpdateRecords e now io d rs)) = dataStoreCache d \<and>
   dataStoreCache (snd (appendData e now io d rs)) = dataStoreCache d \<and>
   dataStoreCache (snd (deleteRecord now io d rid)) = dataStoreCache d \<and>
   (dataStoreCache d (''datastore_'' @ g) = Some c \<and> be_timestamp c < now \<and> now \<noteq> 0 \<longrightarrow>
      (key_of (get_prop (with_timestamp e r) ''id'') \<noteq> None \<longrightarrow>
         loadDataStoreBuckets t (snd (updateRecord e now True d r)) g
           (getLastSyncTime True (snd (updateRecord e now True d r))) = None) \<and>
      (rs \<noteq> [] \<and> fst (batchUpdateRecords e now True d rs) = Inr (length rs) \<longrightarrow>
         loadDataStoreBuckets t (snd (batchUpdateRecords e now True d rs)) g
           (getLastSyncTime True (snd (batchUpdateRecords e now True d rs))) = None) \<and>
      (key_of rid \<noteq> None \<and> meta d \<noteq> None \<longrightarrow>
         loadDataStoreBuckets t (snd (deleteRecord now True d rid)) g
           (getLastSyncTime True (snd (deleteRecord now True d rid))) = None)) \<and>
   loadDataStoreBuckets t (clearDataStoreBucketsCache d) g l = None"
proof -
  have stale: "dataStoreCache d (''datastore_'' @ g) = Some c \<and> be_timestamp c < now \<and> now \<noteq> 0 \<longrightarrow>
      (key_of (get_prop (with_timestamp e r) ''id'') \<noteq> None \<longrightarrow>
         loadDataStoreBuckets t (snd (updateRecord e now True d r)) g
           (getLastSyncTime True (snd (updateRecord e now True d r))) = None) \<and>
      (rs \<noteq> [] \<and> fst (batchUpdateRecords e now True d rs) = Inr (length rs) \<longrightarrow>
         loadDataStoreBuckets t (snd (batchUpdateRecords e now True d rs)) g
           (getLastSyncTime True (snd (batchUpdateRecords e now True d rs))) = None) \<and>
      (key_of rid \<noteq> None \<and> meta d \<noteq> None \<longrightarrow>
         loadDataStoreBuckets t (snd (deleteRecord now True d rid)) g
           (getLastSyncTime True (snd (deleteRecord now True d rid))) = None)"
  proof (intro impI conjI)
    assume a: "dataStoreCache d (''datastore_'' @ g) = Some c \<and> be_timestamp c < now \<and> now \<noteq> 0"
    {
      assume k: "key_of (get_prop (with_timestamp e r) ''id'') \<noteq> None"
      show "loadDataStoreBuckets t (snd (updateRecord e now True d r)) g
           (getLastSyncTime True (snd (updateRecord e now True d r))) = None"
        using a by (simp add: updateRecord_lastSyncTime [OF k] load_stale updateRecord_caches)
    }
    {
      assume b: "rs \<noteq> [] \<and> fst (batchUpdateRecords e now True d rs) = Inr (length rs)"
      then have "getLastSyncTime True (snd (batchUpdateRecords e now True d rs)) = JNum now"
        using batchUpdateRecords_lastSyncTime by blast
      then show "loadDataStoreBuckets t (snd (batchUpdateRecords e now True d rs)) g
           (getLastSyncTime True (snd (batchUpdateRecords e now True d rs))) = None"
        using a by (simp add: load_stale batchUpdateRecords_caches)
    }
    {
      assume b: "key_of rid \<noteq> None \<and> meta d \<noteq> None"
      then have "getLastSyncTime True (snd (deleteRecord now True d rid)) = JNum now"
        using deleteRecord_lastSyncTime by blast
      then show "loadDataStoreBuckets t (snd (deleteRecord now True d rid)) g
           (getLastSyncTime True (snd (deleteRecord now True d rid))) = None"
        using a by (simp add: load_stale deleteRecord_caches)
    }
  qed
  have cleared: "loadDataStoreBuckets t (clearDataStoreBucketsCache d) g l = None"
    by (simp add: loadDataStoreBuckets_def clearDataStoreBucketsCache_def)
  have s1: "getStatistics (snd (updateRecord e now io d r)) ty = getStatistics d ty"
    by (rule getStatistics_cong) (simp add: updateRecord_caches)
  have s2: "getStatistics (snd (batchUpdateRecords e now io d rs)) ty = getStatistics d ty"
    by (rule getStatistics_cong) (simp add: batchUpdateRecords_caches)
  have s3: "getStatistics (snd (appendData e now io d rs)) ty = getStatistics d ty"
    by (rule getStatistics_cong) (simp add: appendData_caches)
  have s4: "getStatistics (snd (deleteRecord now io d rid)) ty = getStatistics d ty"
    by (rule getStatistics_cong) (simp add: deleteRecord_caches)
  show ?thesis
    using stale cleared s1 s2 s3 s4
    by (simp only: updateRecord_caches batchUpdateRecords_caches appendData_caches
        deleteRecord_caches simp_thms)
qed

text \<open>A database with one statistics entry and one bucket entry, both written at clock reading 1000.\<close>

definition db_cached :: db where
  "db_cached = saveDataStoreBuckets 1000 (saveStatistics 1000 db_P1 ''bucket'' stats_example)
                 ''day'' [] 1"

theorem C2_writes_keep_aggregates_witness:
  "getStatistics (snd (appendData env_utc 2000 True db_cached [rec_P2])) ''bucket'' = Some stats_example \<and>
   loadDataStoreBuckets 3000 (snd (updateRecord env_utc 2000 True db_cached rec_P2)) ''day''
     (getLastSyncTime True (snd (updateRecord env_utc 2000 True db_cached rec_P2))) = None \<and>
   loadDataStoreBuckets 3000 db_cached ''day'' (getLastSyncTime True db_cached) \<noteq> None"
proof -
  have c: "dataStoreCache db_cached (''datastore_'' @ ''day'') =
      Some \<lparr>be_groupType = ''day'', be_buckets = [], be_recordCount = 1, be_timestamp = 1000\<rparr>"
    by (simp add: db_cached_def saveDataStoreBuckets_def)
  have k: "key_of (get_prop (with_timestamp env_utc rec_P2) ''id'') \<noteq> None"
    by (simp add: with_timestamp_def rec_P2_def get_prop_def)
  have g: "getStatistics db_cached ''bucket'' = Some stats_example"
    by (simp add: db_cached_def saveDataStoreBuckets_def saveStatistics_def getStatistics_def)
  have before: "loadDataStoreBuckets 3000 db_cached ''day'' (getLastSyncTime True db_cached) \<noteq> None"
    by (simp add: loadDataStoreBuckets_def c getLastSyncTime_def db_cached_def
        saveDataStoreBuckets_def saveStatistics_def db_P1_def get_prop_def js_or_def)
  show ?thesis
    using C2_writes_keep_aggregates [where e = env_utc and now = 2000 and io = True
        and d = db_cached and r = rec_P2 and rs = "[rec_P2]" and ty = "''bucket''"
        and g = "''day''" and t = 3000
        and c = "\<lparr>be_groupType = ''day'', be_buckets = [], be_recordCount = 1, be_timestamp = 1000\<rparr>"]
      c k g before
    by simp
qed

text \<open>
  The claim as stated fails: the statistics entry saved before an accepted
  \<open>updateRecord\<close> is still returned by \<open>getStatistics\<close> after it.
\<close>

theorem C2_stale_statistics_counterexample:
  "fst (updateRecord env_utc 2000 True (saveStatistics 1000 db_P1 ''bucket'' stats_example) rec_P2)
     = Inr (with_timestamp env_utc rec_P2) \<and>
   getStatistics
     (snd (updateRecord env_utc 2000 True (saveStatistics 1000 db_P1 ''bucket'' stats_example) rec_P2))
     ''bucket'' = Some stats_example"
  by (simp add: updateRecord_def Let_def with_timestamp_def rec_P2_def get_prop_def
      saveStatistics_def getStatistics_def)

section \<open>Upsert applied twice\<close>

text \<open>The two write loops are instances of one loop over a record transformation.\<close>

fun puts :: "(obj \<Rightarrow> obj) \<Rightarrow> (idb_key \<Rightarrow> obj option) \<Rightarrow> obj list \<Rightarrow> bool \<times> (idb_key \<Rightarrow> obj option)" where
  "puts f st [] = (True, st)"
| "puts f st (record # rs) =
     (case key_of (get_prop (f record) ''id'') of
        None \<Rightarrow> (False, st)
      | Some k \<Rightarrow> puts f (st(k \<mapsto> f record)) rs)"

text \<open>What a run of the loop writes, as a map laid over the table.\<close>

fun put_map :: "(obj \<Rightarrow> obj) \<Rightarrow> obj list \<Rightarrow> bool \<times> (idb_key \<Rightarrow> obj option)" where
  "put_map f [] = (True, Map.empty)"
| "put_map f (record # rs) =
     (case key_of (get_prop (f record) ''id'') of
        None \<Rightarrow> (False, Map.empty)
      | Some k \<Rightarrow> (fst (put_map f rs), [k \<mapsto> f record] ++ snd (put_map f rs)))"

lemma put_all_puts: "put_all e st rs = puts (with_timestamp e) st rs"
  by (induction rs arbitrary: st) (auto simp: Let_def split: option.splits)

lemma append_all_puts: "append_all e now st rs = puts (append_record e now) st rs"
  by (induction rs arbitrary: st) (auto simp: Let_def split: option.splits)

lemma upd_as_add: "st(k \<mapsto> v) ++ m = st ++ ([k \<mapsto> v] ++ m)"
  by (rule ext) (simp add: map_add_def split: option.splits)

lemma puts_put_map: "puts f st rs = (fst (put_map f rs), st ++ snd (put_map f rs))"
proof (induction rs arbitrary: st)
  case Nil
  show ?case by simp
next
  case (Cons r rs)
  show ?case
  proof (cases "key_of (get_prop (f r) ''id'')")
    case None
    then show ?thesis by simp
  next
    case (Some k)
    have "puts f st (r # rs) = puts f (st(k \<mapsto> f r)) rs"
      using Some by simp
    also have "\<dots> = (fst (put_map f rs), st(k \<mapsto> f r) ++ snd (put_map f rs))"
      by (rule Cons.IH)
    also have "st(k \<mapsto> f r) ++ snd (put_map f rs) = st ++ ([k \<mapsto> f r] ++ snd (put_map f rs))"
      by (rule upd_as_add)
    finally show ?thesis
      using Some by simp
  qed
qed

lemma add_twice: "(st ++ m) ++ m = st ++ (m :: 'a \<Rightarrow> 'b option)"
  by (rule ext) (simp add: map_add_def split: option.splits)

lemma puts_twice: "puts f (snd (puts f st rs)) rs = puts f st rs"
  by (simp add: puts_put_map [of f st rs] puts_put_map [of f "st ++ snd (put_map f rs)" rs] add_twice)

lemma puts_map_idem:
  "(\<And>r. f (f r) = f r) \<Longrightarrow> puts f st (map f rs) = puts f st rs"
  by (induction rs arbitrary: st) (auto split: option.splits)

lemma with_timestamp_idem: "with_timestamp e (with_timestamp e r) = with_timestamp e r"
  by (simp add: with_timestamp_def get_prop_def)


lemma puts_cong:
  "list_all (\<lambda>r. f r = g r) rs \<Longrightarrow> puts f st rs = puts g st rs"
  by (induction rs arbitrary: st) (auto split: option.splits)

text \<open>What the claim compares: the record table, the total count and the two aggregate tables.\<close>

definition same_contents :: "db \<Rightarrow> db \<Rightarrow> bool" where
  "same_contents d d' =
     (allData d' = allData d \<and> totalCount d' = totalCount d \<and>
      statisticsCache d' = statisticsCache d \<and> dataStoreCache d' = dataStoreCache d)"

text \<open>A record whose stored identifier does not come from the generator.\<close>

definition has_identity :: "obj \<Rightarrow> bool" where
  "has_identity r =
     (r ''id'' \<noteq> None \<or> truthy (get_prop r ''plan_id'') \<or> truthy (get_prop r ''cn_jihua_ID''))"

lemma touch_meta_totalCount:
  "get_prop (touch_meta now (Some m)) ''totalCount'' = get_prop m ''totalCount''"
  by (simp add: touch_meta_def get_prop_def)

lemma updateRecord_unfold:
  "with_timestamp e r2 = with_timestamp e r \<Longrightarrow>
   key_of (get_prop (with_timestamp e r) ''id'') = Some k \<Longrightarrow>
   snd (updateRecord e now True d r2) =
     d\<lparr>allData := (allData d)(k \<mapsto> with_timestamp e r), meta := Some (touch_meta now (meta d))\<rparr>"
  by (simp add: updateRecord_def Let_def)

lemma updateRecord_invalid:
  "with_timestamp e r2 = with_timestamp e r \<Longrightarrow>
   key_of (get_prop (with_timestamp e r) ''id'') = None \<Longrightarrow>
   snd (updateRecord e now io d r2) = d"
  by (simp add: updateRecord_def Let_def)

lemma updateRecord_twice:
  assumes "with_timestamp e r2 = with_timestamp e r"
  shows "same_contents (snd (updateRecord e n1 True d r))
           (snd (updateRecord e n2 True (snd (updateRecord e n1 True d r)) r2))"
proof (cases "key_of (get_prop (with_timestamp e r) ''id'')")
  case None
  show ?thesis
    by (simp add: updateRecord_invalid [OF refl None] updateRecord_invalid [OF assms None]
        same_contents_def)
next
  case (Some k)
  show ?thesis
    by (simp add: updateRecord_unfold [OF refl Some] updateRecord_unfold [OF assms Some]
        same_contents_def totalCount_def touch_meta_totalCount)
qed

lemma batch_unfold:
  "rs \<noteq> [] \<Longrightarrow>
   snd (batchUpdateRecords e now True d rs) =
     (if fst (puts (with_timestamp e) (allData d) rs)
      then d\<lparr>allData := snd (puts (with_timestamp e) (allData d) rs),
             meta := Some (touch_meta now (meta d))\<rparr>
      else d\<lparr>allData := snd (puts (with_timestamp e) (allData d) rs)\<rparr>)"
  by (simp add: batchUpdateRecords_def put_all_puts split: prod.splits)

lemma batch_twice:
  assumes "puts (with_timestamp e) (snd (puts (with_timestamp e) (allData d) rs)) rs2 =
           puts (with_timestamp e) (allData d) rs"
    and "(rs2 = []) = (rs = [])"
  shows "same_contents (snd (batchUpdateRecords e n1 True d rs))
           (snd (batchUpdateRecords e n2 True (snd (batchUpdateRecords e n1 True d rs)) rs2))"
proof (cases "rs = []")
  case True
  then show ?thesis
    using assms(2) by (simp add: batchUpdateRecords_def same_contents_def)
next
  case False
  then have r2: "rs2 \<noteq> []" using assms(2) by simp
  show ?thesis
    using assms(1)
    by (simp add: batch_unfold [OF False] batch_unfold [OF r2] same_contents_def totalCount_def
        touch_meta_totalCount)
qed

lemma standardRecord_apply:
  "standardRecord g r k =
     (case r k of
        Some v \<Rightarrow> Some v
      | None \<Rightarrow>
          if k = ''id'' then
            Some (js_or (get_prop r ''plan_id'')
                   (js_or (get_prop r ''cn_jihua_ID'') (js_or (get_prop r ''id'') g)))
          else standardRecord JNull r k)"
  by (simp add: standardRecord_def map_add_def split: option.splits)

lemma standardRecord_gen:
  assumes "has_identity r"
  shows "standardRecord g1 r = standardRecord g2 r"
proof (rule ext)
  fix k
  show "standardRecord g1 r k = standardRecord g2 r k"
  proof (cases "r k")
    case (Some v)
    then show ?thesis by (simp add: standardRecord_apply [of _ r k])
  next
    case None
    show ?thesis
    proof (cases "k = ''id''")
      case False
      then show ?thesis using None by (simp add: standardRecord_apply [of g1 r k] standardRecord_apply [of g2 r k])
    next
      case True
      then have "truthy (get_prop r ''plan_id'') \<or> truthy (get_prop r ''cn_jihua_ID'')"
        using assms None by (simp add: has_identity_def)
      moreover have "standardRecord g r ''id'' =
          Some (js_or (get_prop r ''plan_id'')
                 (js_or (get_prop r ''cn_jihua_ID'') (js_or (get_prop r ''id'') g)))" for g
        using None True by (simp add: standardRecord_apply [of g r "''id''"])
      ultimately show ?thesis
        using True by (auto simp: js_or_def)
    qed
  qed
qed

lemma append_record_now:
  "has_identity r \<Longrightarrow> append_record e n1 r = append_record e n2 r"
  unfolding append_record_def
  by (rule arg_cong [of _ _ "derive_timestamp e"]) (rule standardRecord_gen)

lemma append_unfold:
  "rs \<noteq> [] \<Longrightarrow>
   snd (appendData e now True d rs) =
     (if fst (puts (append_record e now) (allData d) rs)
      then d\<lparr>allData := snd (puts (append_record e now) (allData d) rs),
             meta := Some (append_meta e now (int (length rs)) (meta d))\<rparr>
      else d\<lparr>allData := snd (puts (append_record e now) (allData d) rs)\<rparr>)"
  by (simp add: appendData_def append_all_puts split: prod.splits)

lemma append_ok:
  "rs \<noteq> [] \<Longrightarrow>
   (fst (appendData e now True d rs) = Inr (length rs)) = fst (puts (append_record e now) (allData d) rs)"
  by (auto simp: appendData_def append_all_puts split: prod.splits bool.splits)

lemma append_meta_totalCount:
  "get_prop (append_meta e now n (Some m)) ''totalCount'' =
     js_plus e (js_or (get_prop m ''totalCount'') (JNum 0)) n"
  by (simp add: append_meta_def get_prop_def)

lemma append_twice:
  assumes "list_all has_identity rs"
  shows "allData (snd (appendData e n2 True (snd (appendData e n1 True d rs)) rs)) =
           allData (snd (appendData e n1 True d rs)) \<and>
         (rs \<noteq> [] \<and> fst (appendData e n1 True d rs) = Inr (length rs) \<longrightarrow>
            totalCount (snd (appendData e n2 True (snd (appendData e n1 True d rs)) rs)) =
              js_plus e (js_or (totalCount (snd (appendData e n1 True d rs))) (JNum 0)) (int (length rs)))"
proof (cases "rs = []")
  case True
  then show ?thesis by (simp add: appendData_def)
next
  case False
  have "list_all (\<lambda>r. append_record e n2 r = append_record e n1 r) rs"
    using assms append_record_now [of _ e n2 n1] by (simp add: list_all_iff)
  then have same: "\<And>st. puts (append_record e n2) st rs = puts (append_record e n1) st rs"
    by (rule puts_cong)
  have tw: "puts (append_record e n1) (snd (puts (append_record e n1) (allData d) rs)) rs =
            puts (append_record e n1) (allData d) rs"
    by (rule puts_twice)
  show ?thesis
    by (simp add: append_unfold [OF False] append_ok [OF False] same tw totalCount_def
        append_meta_totalCount)
qed

text \<open>
  Claim C3, as the code has it. \<open>updateRecord\<close> and \<open>batchUpdateRecords\<close> applied a
  second time to the same record or records (the objects as first passed, or as the
  first call left them, with the timestamp filled in) leave the record table, the total
  count and both aggregate tables as one application leaves them. \<open>appendData\<close>
  applied a second time to records that carry their identity leaves the record table and
  both aggregate tables as one application leaves them, and, when the first application
  succeeded, adds the number of records to the total count once more.
\<close>

theorem C3_upsert_twice:
  "same_contents (snd (updateRecord e n1 True d r))
     (snd (updateRecord e n2 True (snd (updateRecord e n1 True d r)) r)) \<and>
   same_contents (snd (updateRecord e n1 True d r))
     (snd (updateRecord e n2 True (snd (updateRecord e n1 True d r)) (with_timestamp e r))) \<and>
   same_contents (snd (batchUpdateRecords e n1 True d rs))
     (snd (batchUpdateRecords e n2 True (snd (batchUpdateRecords e n1 True d rs)) rs)) \<and>
   same_contents (snd (batchUpdateRecords e n1 True d rs))
     (snd (batchUpdateRecords e n2 True (snd (batchUpdateRecords e n1 True d rs))
        (map (with_timestamp e) rs))) \<and>
   (list_all has_identity rs \<longrightarrow>
      allData (snd (appendData e n2 True (snd (appendData e n1 True d rs)) rs)) =
        allData (snd (appendData e n1 True d rs)) \<and>
      statisticsCache (snd (appendData e n2 True (snd (appendData e n1 True d rs)) rs)) =
        statisticsCache (snd (appendData e n1 True d rs)) \<and>
      dataStoreCache (snd (appendData e n2 True (snd (appendData e n1 True d rs)) rs)) =
        dataStoreCache (snd (appendData e n1 True d rs)) \<and>
      (rs \<noteq> [] \<and> fst (appendData e n1 True d rs) = Inr (length rs) \<longrightarrow>
         totalCount (snd (appendData e n2 True (snd (appendData e n1 True d rs)) rs)) =
           js_plus e (js_or (totalCount (snd (appendData e n1 True d rs))) (JNum 0)) (int (length rs))))"
proof -
  have u1: "same_contents (snd (updateRecord e n1 True d r))
     (snd (updateRecord e n2 True (snd (updateRecord e n1 True d r)) r))"
    by (rule updateRecord_twice) simp
  have u2: "same_contents (snd (updateRecord e n1 True d r))
     (snd (updateRecord e n2 True (snd (updateRecord e n1 True d r)) (with_timestamp e r)))"
    by (rule updateRecord_twice) (rule with_timestamp_idem)
  have b1: "same_contents (snd (batchUpdateRecords e n1 True d rs))
     (snd (batchUpdateRecords e n2 True (snd (batchUpdateRecords e n1 True d rs)) rs))"
    by (rule batch_twice) (simp_all add: puts_twice)
  have "puts (with_timestamp e) (snd (puts (with_timestamp e) (allData d) rs)) (map (with_timestamp e) rs) =
        puts (with_timestamp e) (snd (puts (with_timestamp e) (allData d) rs)) rs"
    by (rule puts_map_idem) (rule with_timestamp_idem)
  then have b2: "same_contents (snd (batchUpdateRecords e n1 True d rs))
     (snd (batchUpdateRecords e n2 True (snd (batchUpdateRecords e n1 True d rs))
        (map (with_timestamp e) rs)))"
    by (intro batch_twice) (simp_all add: puts_twice)
  have a: "list_all has_identity rs \<longrightarrow>
      allData (snd (appendData e n2 True (snd (appendData e n1 True d rs)) rs)) =
        allData (snd (appendData e n1 True d rs)) \<and>
      statisticsCache (snd (appendData e n2 True (snd (appendData e n1 True d rs)) rs)) =
        statisticsCache (snd (appendData e n1 True d rs)) \<and>
      dataStoreCache (snd (appendData e n2 True (snd (appendData e n1 True d rs)) rs)) =
        dataStoreCache (snd (appendData e n1 True d rs)) \<and>
      (rs \<noteq> [] \<and> fst (appendData e n1 True d rs) = Inr (length rs) \<longrightarrow>
         totalCount (snd (appendData e n2 True (snd (appendData e n1 True d rs)) rs)) =
           js_plus e (js_or (totalCount (snd (appendData e n1 True d rs))) (JNum 0)) (int (length rs)))"
    using append_twice [of rs e n2 n1 d] by (simp add: appendData_caches)
  show ?thesis
    by (intro conjI u1 u2 b1 b2 a)
qed


theorem C3_upsert_twice_witness:
  "list_all has_identity [rec_P2] \<and>
   same_contents (snd (updateRecord env_utc 2000 True db_P1 rec_P2))
     (snd (updateRecord env_utc 3000 True (snd (updateRecord env_utc 2000 True db_P1 rec_P2)) rec_P2)) \<and>
   same_contents (snd (batchUpdateRecords env_utc 2000 True db_P1 [rec_P2]))
     (snd (batchUpdateRecords env_utc 3000 True (snd (batchUpdateRecords env_utc 2000 True db_P1 [rec_P2]))
        [rec_P2])) \<and>
   allData (snd (appendData env_utc 3000 True (snd (appendData env_utc 2000 True db_P1 [rec_P2])) [rec_P2])) =
     allData (snd (appendData env_utc 2000 True db_P1 [rec_P2]))"
proof -
  have h: "list_all has_identity [rec_P2]"
    by (simp add: has_identity_def rec_P2_def)
  show ?thesis
    using C3_upsert_twice [where e = env_utc and ?n1.0 = 2000 and ?n2.0 = 3000 and d = db_P1
        and r = rec_P2 and rs = "[rec_P2]"] h
    by blast
qed

text \<open>
  The claim as stated fails for \<open>appendData\<close>: on a database that counts one record,
  appending the record \<open>P2\<close> once gives the total count 2, appending it twice gives 3.
\<close>

theorem C3_appendData_count_counterexample:
  "fst (appendData env_utc 2000 True db_P1 [rec_P2]) = Inr 1 \<and>
   totalCount (snd (appendData env_utc 2000 True db_P1 [rec_P2])) = JNum 2 \<and>
   totalCount (snd (appendData env_utc 3000 True (snd (appendData env_utc 2000 True db_P1 [rec_P2]))
     [rec_P2])) = JNum 3"
proof -
  have k: "key_of (get_prop (append_record env_utc n rec_P2) ''id'') = Some (KStr ''P2'')" for n
    by (simp add: append_record_def derive_timestamp_def standardRecord_def rec_P2_def
        get_prop_def js_or_def map_add_def)
  have p: "puts (append_record env_utc n) st [rec_P2] =
      (True, st(KStr ''P2'' \<mapsto> append_record env_utc n rec_P2))" for n st
    by (simp add: k)
  have one: "snd (appendData env_utc 2000 True db_P1 [rec_P2]) =
      db_P1\<lparr>allData := (allData db_P1)(KStr ''P2'' \<mapsto> append_record env_utc 2000 rec_P2),
            meta := Some (append_meta env_utc 2000 1 (meta db_P1))\<rparr>"
    by (simp add: append_unfold p del: puts.simps)
  have ok: "fst (appendData env_utc 2000 True db_P1 [rec_P2]) = Inr 1"
    using append_ok [of "[rec_P2]" env_utc 2000 db_P1] by (simp add: p del: puts.simps)
  have c1: "get_prop (append_meta env_utc 2000 1 (meta db_P1)) ''totalCount'' = JNum 2"
    by (simp add: db_P1_def append_meta_totalCount) (simp add: get_prop_def js_or_def)
  have c2: "get_prop (append_meta env_utc 3000 1 (Some (append_meta env_utc 2000 1 (meta db_P1)))) ''totalCount'' = JNum 3"
    by (simp add: append_meta_totalCount c1 js_or_def)
  show ?thesis
    by (simp add: ok append_unfold p one totalCount_def c1 c2 del: puts.simps)
qed

section \<open>Catch-up reconciliation (WebSocketSyncManager)\<close>

text \<open>
  The answer of the incremental endpoint
  \<open>?sinceChangeLogId=<cursor>&recentDays=30&limit=10000\<close>, as the code inspects it:
  \<open>fetch\<close> throws, or gives a response with its \<open>ok\<close> flag and a body; the
  body does not parse, or parses to \<open>{success, data}\<close>; \<open>data\<close> carries
  \<open>records\<close> (\<open>None\<close> when it is not there, so that \<open>records.length\<close> throws) and
  \<open>maxChangeLogId\<close>.
\<close>

record payload =
  records :: "obj list option"
  maxChangeLogId :: jsval

datatype body = BadJson | Json bool "payload option"

datatype response = NetworkError | Http bool body

text \<open>What the call resolves to; \<open>resultMaxId\<close> is the property \<open>maxChangeLogId\<close>
  that only the successful result has.\<close>

record catchup_result =
  hasNewData :: bool
  count :: nat
  resultMaxId :: "jsval option"

definition no_new_data :: catchup_result where
  "no_new_data = \<lparr>hasNewData = False, count = 0, resultMaxId = None\<rparr>"

text \<open>
  One attempt, as the world presents it: the clock, the outcome of the cursor read, of the
  batch write and of the cursor write, and the answer the endpoint gives if it is asked.
\<close>

record attempt =
  clock :: int
  read_io :: bool
  batch_io :: bool
  save_io :: bool
  answer :: response

text \<open>
  \<open>performCatchupSyncByChangeLogId(lastChangeLogId)\<close>. The result is the resolved
  value, the list of cursors sent to the endpoint, and the database afterwards. Every
  exit but the last is an early return or the \<open>catch\<close> block.
\<close>

definition performCatchupSyncByChangeLogId ::
  "env \<Rightarrow> attempt \<Rightarrow> db \<Rightarrow> jsval \<Rightarrow> catchup_result \<times> jsval list \<times> db" where
  "performCatchupSyncByChangeLogId e a d lastChangeLogId =
     (case answer a of
        NetworkError \<Rightarrow> (no_new_data, [lastChangeLogId], d)
      | Http ok b \<Rightarrow>
          if \<not> ok then (no_new_data, [lastChangeLogId], d)
          else
            (case b of
               BadJson \<Rightarrow> (no_new_data, [lastChangeLogId], d)
             | Json success dat \<Rightarrow>
                 (case dat of
                    None \<Rightarrow> (no_new_data, [lastChangeLogId], d)
                  | Some p \<Rightarrow>
                      if \<not> success then (no_new_data, [lastChangeLogId], d)
                      else
                        (case records p of
                           None \<Rightarrow> (no_new_data, [lastChangeLogId], d)
                         | Some rs \<Rightarrow>
                             if rs = [] then (no_new_data, [lastChangeLogId], d)
                             else
                               (case batchUpdateRecords e (clock a) (batch_io a) d
                                       (map (\<lambda>r. r(''id'' \<mapsto> get_prop r ''plan_id'')) rs) of
                                  (Inl er, d1) \<Rightarrow> (no_new_data, [lastChangeLogId], d1)
                                | (Inr n, d1) \<Rightarrow>
                                    (case saveLastChangeLogId (clock a) (save_io a) d1
                                            (maxChangeLogId p) of
                                       (Inl er, d2) \<Rightarrow> (no_new_data, [lastChangeLogId], d2)
                                     | (Inr u, d2) \<Rightarrow>
                                         (\<lparr>hasNewData = True, count = length rs,
                                           resultMaxId = Some (maxChangeLogId p)\<rparr>,
                                          [lastChangeLogId], d2)))))))"

text \<open>\<open>checkAndPerformCatchup()\<close>: nothing is asked when the cursor reads as 0.\<close>

definition checkAndPerformCatchup ::
  "env \<Rightarrow> attempt \<Rightarrow> db \<Rightarrow> catchup_result \<times> jsval list \<times> db" where
  "checkAndPerformCatchup e a d =
     (let lastChangeLogId = getLastChangeLogId (read_io a) d in
      if lastChangeLogId = JNum 0 then (no_new_data, [], d)
      else performCatchupSyncByChangeLogId e a d lastChangeLogId)"

text \<open>
  The answers that bring nothing to apply: a thrown error, a response that is not OK, a
  body that does not parse or lacks \<open>success\<close>, \<open>data\<close> or \<open>records\<close>, and an
  empty list of records.
\<close>

fun brings_nothing :: "response \<Rightarrow> bool" where
  "brings_nothing NetworkError = True"
| "brings_nothing (Http ok BadJson) = True"
| "brings_nothing (Http ok (Json success None)) = True"
| "brings_nothing (Http ok (Json success (Some p))) =
     (if ok \<and> success then (case records p of None \<Rightarrow> True | Some rs \<Rightarrow> rs = []) else True)"

lemma perform_nothing:
  "brings_nothing (answer a) \<Longrightarrow>
   performCatchupSyncByChangeLogId e a d c = (no_new_data, [c], d)"
  by (cases "answer a" rule: brings_nothing.cases)
     (auto simp: performCatchupSyncByChangeLogId_def split: option.splits)

lemma check_initial:
  "getLastChangeLogId (read_io a) d = JNum 0 \<Longrightarrow> checkAndPerformCatchup e a d = (no_new_data, [], d)"
  by (simp add: checkAndPerformCatchup_def)

lemma check_nothing:
  "brings_nothing (answer a) \<Longrightarrow>
   fst (checkAndPerformCatchup e a d) = no_new_data \<and> snd (snd (checkAndPerformCatchup e a d)) = d"
  by (simp add: checkAndPerformCatchup_def Let_def perform_nothing)

definition attempt_offline :: attempt where
  "attempt_offline =
     \<lparr>clock = 2000, read_io = True, batch_io = True, save_io = True, answer = NetworkError\<rparr>"

definition attempt_empty :: attempt where
  "attempt_empty =
     \<lparr>clock = 2000, read_io = True, batch_io = True, save_io = True,
      answer = Http True (Json True (Some \<lparr>records = Some [], maxChangeLogId = JNum 100\<rparr>))\<rparr>"

section \<open>A successful catch-up\<close>

lemma puts_keeps: "st k \<noteq> None \<Longrightarrow> snd (puts f st rs) k \<noteq> None"
  by (induction rs arbitrary: st) (auto split: option.splits)

text \<open>The record's key is valid and the table holds a record under it.\<close>

definition stored_under :: "(idb_key \<Rightarrow> obj option) \<Rightarrow> jsval \<Rightarrow> bool" where
  "stored_under st v = (case key_of v of None \<Rightarrow> False | Some k \<Rightarrow> st k \<noteq> None)"

lemma puts_present:
  "fst (puts f st rs) \<Longrightarrow> list_all (\<lambda>r. stored_under (snd (puts f st rs)) (get_prop (f r) ''id'')) rs"
proof (induction rs arbitrary: st)
  case Nil
  show ?case by simp
next
  case (Cons r rs)
  show ?case
  proof (cases "key_of (get_prop (f r) ''id'')")
    case None
    then show ?thesis using Cons.prems by simp
  next
    case (Some k)
    have kp: "snd (puts f (st(k \<mapsto> f r)) rs) k \<noteq> None"
      by (rule puts_keeps) simp
    have ok: "fst (puts f (st(k \<mapsto> f r)) rs)"
      using Cons.prems Some by simp
    have "list_all (\<lambda>r'. stored_under (snd (puts f (st(k \<mapsto> f r)) rs)) (get_prop (f r') ''id'')) rs"
      by (rule Cons.IH [OF ok])
    then show ?thesis
      using Some kp by (simp add: stored_under_def)
  qed
qed

lemma puts_ok:
  "list_all (\<lambda>r. key_of (get_prop (f r) ''id'') \<noteq> None) rs \<Longrightarrow> fst (puts f st rs)"
  by (induction rs arbitrary: st) (auto split: option.splits)

lemma batch_result:
  "rs \<noteq> [] \<Longrightarrow>
   batchUpdateRecords e now io d rs =
     (if fst (puts (with_timestamp e) (allData d) rs)
      then (if io
            then (Inr (length rs),
                  d\<lparr>allData := snd (puts (with_timestamp e) (allData d) rs),
                    meta := Some (touch_meta now (meta d))\<rparr>)
            else (Inl TransactionError, d))
      else (Inl DataError,
            if io then d\<lparr>allData := snd (puts (with_timestamp e) (allData d) rs)\<rparr> else d))"
  by (simp add: batchUpdateRecords_def put_all_puts split: prod.splits)

text \<open>\<open>{...record, id: record.plan_id}\<close>.\<close>

definition with_plan_id :: "obj \<Rightarrow> obj" where
  "with_plan_id r = r(''id'' \<mapsto> get_prop r ''plan_id'')"

lemma converted_id: "get_prop (with_timestamp e (with_plan_id r)) ''id'' = get_prop r ''plan_id''"
  by (simp add: with_timestamp_def with_plan_id_def get_prop_def)

lemma perform_unfold:
  assumes "answer a = Http True (Json True (Some p))" and "records p = Some rs" and "rs \<noteq> []"
  shows "performCatchupSyncByChangeLogId e a d c =
     (case batchUpdateRecords e (clock a) (batch_io a) d (map with_plan_id rs) of
        (Inl er, d1) \<Rightarrow> (no_new_data, [c], d1)
      | (Inr n, d1) \<Rightarrow>
          (case saveLastChangeLogId (clock a) (save_io a) d1 (maxChangeLogId p) of
             (Inl er, d2) \<Rightarrow> (no_new_data, [c], d2)
           | (Inr u, d2) \<Rightarrow>
               (\<lparr>hasNewData = True, count = length rs, resultMaxId = Some (maxChangeLogId p)\<rparr>,
                [c], d2)))"
proof -
  have "(\<lambda>r. r(''id'' \<mapsto> get_prop r ''plan_id'')) = with_plan_id"
    by (rule ext) (simp add: with_plan_id_def)
  then show ?thesis
    using assms by (simp add: performCatchupSyncByChangeLogId_def)
qed

lemma saved_cursor:
  "getLastChangeLogId True (snd (saveLastChangeLogId now True d v)) = js_or v (JNum 0)"
  by (simp add: saveLastChangeLogId_def getLastChangeLogId_def get_prop_def)

lemma save_result:
  "saveLastChangeLogId now io d v =
     (if io then (Inr (), snd (saveLastChangeLogId now True d v)) else (Inl TransactionError, d))"
  by (simp add: saveLastChangeLogId_def)

lemma save_allData: "allData (snd (saveLastChangeLogId now io d v)) = allData d"
  by (simp add: saveLastChangeLogId_def)

text \<open>The three things a catch-up needs to succeed, and what a success leaves.\<close>

lemma perform_success:
  assumes "answer a = Http True (Json True (Some p))" and "records p = Some rs" and "rs \<noteq> []"
  shows "hasNewData (fst (performCatchupSyncByChangeLogId e a d c)) =
           (batch_io a \<and> save_io a \<and>
            fst (puts (with_timestamp e) (allData d) (map with_plan_id rs)))"
    and "hasNewData (fst (performCatchupSyncByChangeLogId e a d c)) \<Longrightarrow>
         performCatchupSyncByChangeLogId e a d c =
           (\<lparr>hasNewData = True, count = length rs, resultMaxId = Some (maxChangeLogId p)\<rparr>, [c],
            snd (saveLastChangeLogId (clock a) True
              (d\<lparr>allData := snd (puts (with_timestamp e) (allData d) (map with_plan_id rs)),
                 meta := Some (touch_meta (clock a) (meta d))\<rparr>) (maxChangeLogId p)))"
proof -
  have ne: "map with_plan_id rs \<noteq> []" using assms(3) by simp
  show "hasNewData (fst (performCatchupSyncByChangeLogId e a d c)) =
           (batch_io a \<and> save_io a \<and>
            fst (puts (with_timestamp e) (allData d) (map with_plan_id rs)))"
    by (simp add: perform_unfold [OF assms] batch_result [OF ne] no_new_data_def
        save_result [of _ "save_io a"])
  show "hasNewData (fst (performCatchupSyncByChangeLogId e a d c)) \<Longrightarrow>
         performCatchupSyncByChangeLogId e a d c =
           (\<lparr>hasNewData = True, count = length rs, resultMaxId = Some (maxChangeLogId p)\<rparr>, [c],
            snd (saveLastChangeLogId (clock a) True
              (d\<lparr>allData := snd (puts (with_timestamp e) (allData d) (map with_plan_id rs)),
                 meta := Some (touch_meta (clock a) (meta d))\<rparr>) (maxChangeLogId p)))"
    by (simp add: perform_unfold [OF assms] batch_result [OF ne] no_new_data_def
        save_result [of _ "save_io a"] split: if_splits)
qed


text \<open>
  Claim C6. Let the endpoint answer with a non-empty list of records and a numeric
  \<open>maxChangeLogId\<close>. Whenever the catch-up succeeds (it resolves with
  \<open>hasNewData: true\<close>), it resolves to \<open>{hasNewData: true, count: records.length,
  maxChangeLogId}\<close>, the persisted cursor reads exactly that \<open>maxChangeLogId\<close>, and
  the \<open>plan_id\<close> of every returned record is a key of the record table. It does
  succeed when both writes commit and every returned \<open>plan_id\<close> is a valid key.
\<close>

theorem C6_catchup_success:
  "answer a = Http True (Json True (Some p)) \<and> records p = Some rs \<and> rs \<noteq> [] \<and>
   maxChangeLogId p = JNum m \<longrightarrow>
     (hasNewData (fst (performCatchupSyncByChangeLogId e a d c)) \<longrightarrow>
        fst (performCatchupSyncByChangeLogId e a d c) =
          \<lparr>hasNewData = True, count = length rs, resultMaxId = Some (JNum m)\<rparr> \<and>
        getLastChangeLogId True (snd (snd (performCatchupSyncByChangeLogId e a d c))) = JNum m \<and>
        list_all (\<lambda>r. stored_under (allData (snd (snd (performCatchupSyncByChangeLogId e a d c))))
                          (get_prop r ''plan_id'')) rs) \<and>
     (batch_io a \<and> save_io a \<and> list_all (\<lambda>r. key_of (get_prop r ''plan_id'') \<noteq> None) rs \<longrightarrow>
        hasNewData (fst (performCatchupSyncByChangeLogId e a d c)))"
proof (intro impI conjI)
  assume h: "answer a = Http True (Json True (Some p)) \<and> records p = Some rs \<and> rs \<noteq> [] \<and>
     maxChangeLogId p = JNum m"
  then have h1: "answer a = Http True (Json True (Some p))" and h2: "records p = Some rs"
    and h3: "rs \<noteq> []" and h4: "maxChangeLogId p = JNum m"
    by simp_all
  note iff = perform_success(1) [OF h1 h2 h3, of e d c]
  {
    assume s: "hasNewData (fst (performCatchupSyncByChangeLogId e a d c))"
    note eq = perform_success(2) [OF h1 h2 h3 s]
    show "fst (performCatchupSyncByChangeLogId e a d c) =
          \<lparr>hasNewData = True, count = length rs, resultMaxId = Some (JNum m)\<rparr>"
      by (simp add: eq h4)
    show "getLastChangeLogId True (snd (snd (performCatchupSyncByChangeLogId e a d c))) = JNum m"
      by (simp add: eq h4 saved_cursor js_or_num_zero)
    have ok: "fst (puts (with_timestamp e) (allData d) (map with_plan_id rs))"
      using s iff by simp
    have "list_all (\<lambda>r. stored_under (snd (puts (with_timestamp e) (allData d) (map with_plan_id rs)))
                            (get_prop (with_timestamp e r) ''id'')) (map with_plan_id rs)"
      by (rule puts_present [OF ok])
    then have "list_all (\<lambda>r. stored_under (snd (puts (with_timestamp e) (allData d) (map with_plan_id rs)))
                            (get_prop r ''plan_id'')) rs"
      by (simp add: list_all_iff converted_id)
    then show "list_all (\<lambda>r. stored_under (allData (snd (snd (performCatchupSyncByChangeLogId e a d c))))
                          (get_prop r ''plan_id'')) rs"
      by (simp add: eq save_allData)
  }
  {
    assume g: "batch_io a \<and> save_io a \<and> list_all (\<lambda>r. key_of (get_prop r ''plan_id'') \<noteq> None) rs"
    then have "list_all (\<lambda>r. key_of (get_prop (with_timestamp e r) ''id'') \<noteq> None) (map with_plan_id rs)"
      by (simp add: list_all_iff converted_id)
    then have "fst (puts (with_timestamp e) (allData d) (map with_plan_id rs))"
      by (rule puts_ok)
    then show "hasNewData (fst (performCatchupSyncByChangeLogId e a d c))"
      using g iff by simp
  }
qed

text \<open>The scenario of the specification: the cursor is 100, the endpoint returns five
  records and \<open>maxChangeLogId = 105\<close>.\<close>

definition change_of :: "string \<Rightarrow> obj" where
  "change_of pid = [''plan_id'' \<mapsto> JStr pid, ''start_time'' \<mapsto> JStr ''2024-03-01 00:00:00'']"

definition payload_five :: payload where
  "payload_five =
     \<lparr>records = Some (map change_of [''P1'', ''P2'', ''P3'', ''P4'', ''P5'']),
      maxChangeLogId = JNum 105\<rparr>"

definition attempt_five :: attempt where
  "attempt_five =
     \<lparr>clock = 2000, read_io = True, batch_io = True, save_io = True,
      answer = Http True (Json True (Some payload_five))\<rparr>"

theorem C6_catchup_success_witness:
  "getLastChangeLogId True db_P1 = JNum 100 \<and>
   fst (performCatchupSyncByChangeLogId env_utc attempt_five db_P1 (JNum 100)) =
     \<lparr>hasNewData = True, count = 5, resultMaxId = Some (JNum 105)\<rparr> \<and>
   getLastChangeLogId True (snd (snd (performCatchupSyncByChangeLogId env_utc attempt_five db_P1 (JNum 100))))
     = JNum 105 \<and>
   list_all (\<lambda>r. stored_under
                (allData (snd (snd (performCatchupSyncByChangeLogId env_utc attempt_five db_P1 (JNum 100)))))
                (get_prop r ''plan_id''))
     (map change_of [''P1'', ''P2'', ''P3'', ''P4'', ''P5''])"
proof -
  have c: "getLastChangeLogId True db_P1 = JNum 100"
    by (simp add: getLastChangeLogId_def db_P1_def get_prop_def js_or_def)
  have h: "answer attempt_five = Http True (Json True (Some payload_five)) \<and>
      records payload_five = Some (map change_of [''P1'', ''P2'', ''P3'', ''P4'', ''P5'']) \<and>
      map change_of [''P1'', ''P2'', ''P3'', ''P4'', ''P5''] \<noteq> [] \<and>
      maxChangeLogId payload_five = JNum 105"
    by (simp add: attempt_five_def payload_five_def)
  have g: "batch_io attempt_five \<and> save_io attempt_five \<and>
      list_all (\<lambda>r. key_of (get_prop r ''plan_id'') \<noteq> None)
        (map change_of [''P1'', ''P2'', ''P3'', ''P4'', ''P5''])"
    by (simp add: attempt_five_def change_of_def get_prop_def)
  have l: "length (map change_of [''P1'', ''P2'', ''P3'', ''P4'', ''P5'']) = 5"
    by simp
  note T = C6_catchup_success [where a = attempt_five and p = payload_five and m = 105
        and rs = "map change_of [''P1'', ''P2'', ''P3'', ''P4'', ''P5'']"
        and e = env_utc and d = db_P1 and c = "JNum 100"]
  have s: "hasNewData (fst (performCatchupSyncByChangeLogId env_utc attempt_five db_P1 (JNum 100)))"
    using T h g by blast
  have "fst (performCatchupSyncByChangeLogId env_utc attempt_five db_P1 (JNum 100)) =
      \<lparr>hasNewData = True, count = length (map change_of [''P1'', ''P2'', ''P3'', ''P4'', ''P5'']),
       resultMaxId = Some (JNum 105)\<rparr> \<and>
    getLastChangeLogId True (snd (snd (performCatchupSyncByChangeLogId env_utc attempt_five db_P1 (JNum 100))))
      = JNum 105 \<and>
    list_all (\<lambda>r. stored_under
                (allData (snd (snd (performCatchupSyncByChangeLogId env_utc attempt_five db_P1 (JNum 100)))))
                (get_prop r ''plan_id''))
      (map change_of [''P1'', ''P2'', ''P3'', ''P4'', ''P5''])"
    using T h s by blast
  then show ?thesis
    using c by (simp only: l simp_thms)
qed

section \<open>The persisted cursor over a sequence of catch-ups\<close>

text \<open>The persisted change cursor, as \<open>getLastChangeLogId\<close> reads it.\<close>

definition cursor :: "db \<Rightarrow> jsval" where
  "cursor d = getLastChangeLogId True d"

text \<open>A sequence of catch-ups, each followed by the next on the database it left.\<close>

fun run_catchups :: "env \<Rightarrow> db \<Rightarrow> attempt list \<Rightarrow> db" where
  "run_catchups e d [] = d"
| "run_catchups e d (a # as) = run_catchups e (snd (snd (checkAndPerformCatchup e a d))) as"

text \<open>The cursor before the first catch-up and after each one.\<close>

fun cursor_trace :: "env \<Rightarrow> db \<Rightarrow> attempt list \<Rightarrow> jsval list" where
  "cursor_trace e d [] = [cursor d]"
| "cursor_trace e d (a # as) = cursor d # cursor_trace e (snd (snd (checkAndPerformCatchup e a d))) as"

text \<open>The \<open>maxChangeLogId\<close> of every catch-up of the sequence that succeeded, in order.\<close>

fun returned_ids :: "env \<Rightarrow> db \<Rightarrow> attempt list \<Rightarrow> jsval list" where
  "returned_ids e d [] = []"
| "returned_ids e d (a # as) =
     (case resultMaxId (fst (checkAndPerformCatchup e a d)) of None \<Rightarrow> [] | Some m \<Rightarrow> [m])
     @ returned_ids e (snd (snd (checkAndPerformCatchup e a d))) as"

lemma answer_cases:
  "brings_nothing (answer a) \<or>
   (\<exists>p rs. answer a = Http True (Json True (Some p)) \<and> records p = Some rs \<and> rs \<noteq> [])"
  by (cases "answer a" rule: brings_nothing.cases) (auto split: option.splits)

lemma touch_meta_cursor:
  "js_or (get_prop (touch_meta now m) ''lastChangeLogId'') (JNum 0) =
     (case m of None \<Rightarrow> JNum 0 | Some mo \<Rightarrow> js_or (get_prop mo ''lastChangeLogId'') (JNum 0))"
  by (simp add: touch_meta_def default_meta_def get_prop_def js_or_def split: option.splits)

lemma batch_cursor:
  "cursor (snd (batchUpdateRecords e now io d rs)) = cursor d"
proof (cases "rs = []")
  case True
  then show ?thesis by (simp add: batchUpdateRecords_def)
next
  case False
  show ?thesis
    by (simp add: batch_result [OF False] cursor_def getLastChangeLogId_def touch_meta_cursor
        split: option.splits)
qed

lemma perform_cursor:
  "cursor (snd (snd (performCatchupSyncByChangeLogId e a d c))) =
     (case resultMaxId (fst (performCatchupSyncByChangeLogId e a d c)) of
        None \<Rightarrow> cursor d
      | Some m \<Rightarrow> js_or m (JNum 0))"
proof -
  consider (nothing) "brings_nothing (answer a)"
    | (some) p rs where "answer a = Http True (Json True (Some p))" "records p = Some rs" "rs \<noteq> []"
    using answer_cases by blast
  then show ?thesis
  proof cases
    case nothing
    then show ?thesis by (simp add: perform_nothing no_new_data_def)
  next
    case some
    obtain b d1 where b: "batchUpdateRecords e (clock a) (batch_io a) d (map with_plan_id rs) = (b, d1)"
      by (cases "batchUpdateRecords e (clock a) (batch_io a) d (map with_plan_id rs)")
    have c1: "cursor d1 = cursor d"
      using batch_cursor [of e "clock a" "batch_io a" d "map with_plan_id rs"] b by simp
    show ?thesis
    proof (cases b)
      case (Inl er)
      then show ?thesis
        by (simp add: perform_unfold [OF some] b no_new_data_def c1)
    next
      case (Inr n)
      obtain s d2 where sv: "saveLastChangeLogId (clock a) (save_io a) d1 (maxChangeLogId p) = (s, d2)"
        by (cases "saveLastChangeLogId (clock a) (save_io a) d1 (maxChangeLogId p)")
      show ?thesis
      proof (cases "save_io a")
        case True
        have "s = Inr ()" using sv True by (simp add: saveLastChangeLogId_def)
        moreover have "cursor d2 = js_or (maxChangeLogId p) (JNum 0)"
          using saved_cursor [of "clock a" d1 "maxChangeLogId p"] sv True by (simp add: cursor_def)
        ultimately show ?thesis
          by (simp add: perform_unfold [OF some] b Inr sv)
      next
        case False
        have "s = Inl TransactionError" and "d2 = d1"
          using sv False by (simp_all add: saveLastChangeLogId_def)
        then show ?thesis
          by (simp add: perform_unfold [OF some] b Inr sv no_new_data_def c1)
      qed
    qed
  qed
qed

lemma check_cursor:
  "cursor (snd (snd (checkAndPerformCatchup e a d))) =
     (case resultMaxId (fst (checkAndPerformCatchup e a d)) of
        None \<Rightarrow> cursor d
      | Some m \<Rightarrow> js_or m (JNum 0))"
  by (simp add: checkAndPerformCatchup_def Let_def perform_cursor no_new_data_def)

lemma trace_last: "last (cursor_trace e d as) = cursor (run_catchups e d as)"
proof (induction as arbitrary: d)
  case Nil
  show ?case by simp
next
  case (Cons a as)
  have "cursor_trace e (snd (snd (checkAndPerformCatchup e a d))) as \<noteq> []"
    by (cases as) simp_all
  then show ?case by (simp add: Cons.IH)
qed

lemma sorted_Max_last: "sorted xs \<Longrightarrow> xs \<noteq> [] \<Longrightarrow> Max (set xs) = last (xs :: int list)"
proof (induction xs)
  case Nil
  then show ?case by simp
next
  case (Cons x xs)
  show ?case
  proof (cases "xs = []")
    case True
    then show ?thesis by simp
  next
    case False
    have "Max (set xs) = last xs" using Cons False by simp
    moreover have "x \<le> last xs" using Cons.prems False by simp
    ultimately show ?thesis using False by (simp add: max_def)
  qed
qed

lemma trace_sorted:
  "returned_ids e d as = map JNum ns \<Longrightarrow> cursor d = JNum c \<Longrightarrow> sorted (c # ns) \<Longrightarrow>
   \<exists>cs. cursor_trace e d as = map JNum cs \<and> sorted cs \<and> cs \<noteq> [] \<and> hd cs = c \<and>
        last cs = last (c # ns)"
proof (induction as arbitrary: d c ns)
  case Nil
  then have "ns = []" by simp
  then show ?case using Nil by (intro exI [of _ "[c]"]) simp
next
  case (Cons a as)
  let ?d' = "snd (snd (checkAndPerformCatchup e a d))"
  show ?case
  proof (cases "resultMaxId (fst (checkAndPerformCatchup e a d))")
    case None
    have r: "returned_ids e ?d' as = map JNum ns" using Cons.prems(1) None by simp
    have c': "cursor ?d' = JNum c" using check_cursor [of e a d] None Cons.prems(2) by simp
    obtain cs where cs: "cursor_trace e ?d' as = map JNum cs" "sorted cs" "cs \<noteq> []" "hd cs = c"
        "last cs = last (c # ns)"
      using Cons.IH [OF r c' Cons.prems(3)] by blast
    have "sorted (c # cs)" using cs by (cases cs) auto
    then show ?thesis
      using cs Cons.prems(2) by (intro exI [of _ "c # cs"]) simp
  next
    case (Some m)
    then have "m # returned_ids e ?d' as = map JNum ns" using Cons.prems(1) by simp
    then obtain n ns' where n: "ns = n # ns'" "m = JNum n" "returned_ids e ?d' as = map JNum ns'"
      by (cases ns) auto
    have c': "cursor ?d' = JNum n"
      using check_cursor [of e a d] Some n(2) by (simp add: js_or_num_zero)
    have s': "sorted (n # ns')" and le: "c \<le> n" using Cons.prems(3) n(1) by simp_all
    obtain cs where cs: "cursor_trace e ?d' as = map JNum cs" "sorted cs" "cs \<noteq> []" "hd cs = n"
        "last cs = last (n # ns')"
      using Cons.IH [OF n(3) c' s'] by blast
    have "sorted (c # cs)" using cs le by (cases cs) auto
    then show ?thesis
      using cs Cons.prems(2) n(1) by (intro exI [of _ "c # cs"]) simp
  qed
qed


lemma check_success:
  assumes "getLastChangeLogId (read_io a) d \<noteq> JNum 0"
    and "answer a = Http True (Json True (Some p))" and "records p = Some rs" and "rs \<noteq> []"
    and "batch_io a" and "save_io a"
    and "list_all (\<lambda>r. key_of (get_prop r ''plan_id'') \<noteq> None) rs"
  shows "fst (checkAndPerformCatchup e a d) =
     \<lparr>hasNewData = True, count = length rs, resultMaxId = Some (maxChangeLogId p)\<rparr>"
proof -
  let ?c = "getLastChangeLogId (read_io a) d"
  have "list_all (\<lambda>r. key_of (get_prop (with_timestamp e r) ''id'') \<noteq> None) (map with_plan_id rs)"
    using assms(7) by (simp add: list_all_iff converted_id)
  then have "fst (puts (with_timestamp e) (allData d) (map with_plan_id rs))"
    by (rule puts_ok)
  then have "hasNewData (fst (performCatchupSyncByChangeLogId e a d ?c))"
    using perform_success(1) [OF assms(2,3,4), of e d ?c] assms(5,6) by simp
  then have "fst (performCatchupSyncByChangeLogId e a d ?c) =
     \<lparr>hasNewData = True, count = length rs, resultMaxId = Some (maxChangeLogId p)\<rparr>"
    using perform_success(2) [OF assms(2,3,4), of e d ?c] by simp
  then show ?thesis
    using assms(1) by (simp add: checkAndPerformCatchup_def Let_def)
qed

text \<open>
  Claim C1, as the code has it. After a catch-up that succeeded the persisted cursor is
  the \<open>maxChangeLogId\<close> of that answer (read back as 0 when it is falsy); a catch-up
  that was skipped or failed leaves the cursor as it was. \<open>saveLastChangeLogId\<close>
  stores what it is given and compares nothing. So, for every sequence of catch-ups in
  which the identifiers returned by the successful ones are numbers that never decrease
  and do not fall below the cursor at the start, the cursor after each catch-up is at
  least the cursor before it, and the cursor at the end is the maximum
  \<open>maxChangeLogId\<close> ever returned (the starting cursor when none succeeded), whatever
  attempts failed in between.
\<close>

theorem C1_cursor_follows_server:
  "cursor (snd (snd (checkAndPerformCatchup e a d))) =
     (case resultMaxId (fst (checkAndPerformCatchup e a d)) of
        None \<Rightarrow> cursor d
      | Some m \<Rightarrow> js_or m (JNum 0)) \<and>
   (returned_ids e d as = map JNum ns \<and> cursor d = JNum c \<and> sorted (c # ns) \<longrightarrow>
      (\<exists>cs. cursor_trace e d as = map JNum cs \<and> sorted cs) \<and>
      cursor (run_catchups e d as) = JNum (Max (set (c # ns))) \<and>
      (ns \<noteq> [] \<longrightarrow> cursor (run_catchups e d as) = JNum (Max (set ns))))"
proof (intro conjI impI)
  show "cursor (snd (snd (checkAndPerformCatchup e a d))) =
     (case resultMaxId (fst (checkAndPerformCatchup e a d)) of
        None \<Rightarrow> cursor d
      | Some m \<Rightarrow> js_or m (JNum 0))"
    by (rule check_cursor)
next
  assume h: "returned_ids e d as = map JNum ns \<and> cursor d = JNum c \<and> sorted (c # ns)"
  then obtain cs where cs: "cursor_trace e d as = map JNum cs" "sorted cs" "cs \<noteq> []"
      "last cs = last (c # ns)"
    using trace_sorted [of e d as ns c] by blast
  show "\<exists>cs. cursor_trace e d as = map JNum cs \<and> sorted cs"
    using cs by blast
  have "cursor (run_catchups e d as) = last (map JNum cs)"
    using trace_last [of e d as] cs(1) by simp
  then have fin: "cursor (run_catchups e d as) = JNum (last (c # ns))"
    using cs(3,4) by (simp add: last_map)
  have "Max (set (c # ns)) = last (c # ns)"
    using h by (intro sorted_Max_last) simp_all
  then show "cursor (run_catchups e d as) = JNum (Max (set (c # ns)))"
    using fin by simp
  {
    assume ne: "ns \<noteq> []"
    have "sorted ns" using h by simp
    then have "Max (set ns) = last ns" using ne by (rule sorted_Max_last)
    then show "cursor (run_catchups e d as) = JNum (Max (set ns))"
      using fin ne by simp
  }
qed

theorem C1_cursor_follows_server_witness:
  "returned_ids env_utc db_P1 [attempt_offline, attempt_five] = map JNum [105] \<and>
   cursor db_P1 = JNum 100 \<and> sorted [100, 105 :: int] \<and>
   cursor (run_catchups env_utc db_P1 [attempt_offline, attempt_five]) = JNum 105"
proof -
  have c: "cursor db_P1 = JNum 100"
    by (simp add: cursor_def getLastChangeLogId_def db_P1_def get_prop_def js_or_def)
  have off: "brings_nothing (answer attempt_offline)"
    by (simp add: attempt_offline_def)
  have o1: "fst (checkAndPerformCatchup env_utc attempt_offline db_P1) = no_new_data"
    and o2: "snd (snd (checkAndPerformCatchup env_utc attempt_offline db_P1)) = db_P1"
    using check_nothing [OF off] by simp_all
  have five: "fst (checkAndPerformCatchup env_utc attempt_five db_P1) =
      \<lparr>hasNewData = True, count = length (map change_of [''P1'', ''P2'', ''P3'', ''P4'', ''P5'']),
       resultMaxId = Some (maxChangeLogId payload_five)\<rparr>"
  proof (rule check_success)
    show "getLastChangeLogId (read_io attempt_five) db_P1 \<noteq> JNum 0"
      using c by (simp add: cursor_def attempt_five_def)
    show "answer attempt_five = Http True (Json True (Some payload_five))"
      by (simp add: attempt_five_def)
    show "records payload_five = Some (map change_of [''P1'', ''P2'', ''P3'', ''P4'', ''P5''])"
      by (simp add: payload_five_def)
    show "map change_of [''P1'', ''P2'', ''P3'', ''P4'', ''P5''] \<noteq> []"
      by simp
    show "batch_io attempt_five" and "save_io attempt_five"
      by (simp_all add: attempt_five_def)
    show "list_all (\<lambda>r. key_of (get_prop r ''plan_id'') \<noteq> None)
        (map change_of [''P1'', ''P2'', ''P3'', ''P4'', ''P5''])"
      by (simp add: change_of_def get_prop_def)
  qed
  have r: "returned_ids env_utc db_P1 [attempt_offline, attempt_five] = map JNum [105]"
    by (simp add: o1 o2 five no_new_data_def payload_five_def)
  have s: "sorted [100, 105 :: int]"
    by simp
  have m: "Max (set [100, 105 :: int]) = 105"
    by simp
  show ?thesis
    using C1_cursor_follows_server [where e = env_utc and d = db_P1
        and as = "[attempt_offline, attempt_five]" and ns = "[105]" and c = 100] r c s m
    by simp
qed

text \<open>
  The claim as stated fails: on a database whose cursor is 100, a catch-up that succeeds
  with \<open>maxChangeLogId = 50\<close> leaves the cursor at 50.
\<close>

definition attempt_regress :: attempt where
  "attempt_regress =
     \<lparr>clock = 2000, read_io = True, batch_io = True, save_io = True,
      answer = Http True (Json True
                 (Some \<lparr>records = Some [change_of ''P9''], maxChangeLogId = JNum 50\<rparr>))\<rparr>"

theorem C1_cursor_regress_counterexample:
  "cursor db_P1 = JNum 100 \<and>
   resultMaxId (fst (checkAndPerformCatchup env_utc attempt_regress db_P1)) = Some (JNum 50) \<and>
   hasNewData (fst (checkAndPerformCatchup env_utc attempt_regress db_P1)) \<and>
   cursor (snd (snd (checkAndPerformCatchup env_utc attempt_regress db_P1))) = JNum 50"
proof -
  have c: "cursor db_P1 = JNum 100"
    by (simp add: cursor_def getLastChangeLogId_def db_P1_def get_prop_def js_or_def)
  have res: "fst (checkAndPerformCatchup env_utc attempt_regress db_P1) =
      \<lparr>hasNewData = True, count = length [change_of ''P9''],
       resultMaxId = Some (maxChangeLogId \<lparr>records = Some [change_of ''P9''], maxChangeLogId = JNum 50\<rparr>)\<rparr>"
  proof (rule check_success)
    show "getLastChangeLogId (read_io attempt_regress) db_P1 \<noteq> JNum 0"
      using c by (simp add: cursor_def attempt_regress_def)
    show "answer attempt_regress = Http True (Json True
        (Some \<lparr>records = Some [change_of ''P9''], maxChangeLogId = JNum 50\<rparr>))"
      by (simp add: attempt_regress_def)
    show "records \<lparr>records = Some [change_of ''P9''], maxChangeLogId = JNum 50\<rparr> = Some [change_of ''P9'']"
      by simp
    show "[change_of ''P9''] \<noteq> []"
      by simp
    show "batch_io attempt_regress" and "save_io attempt_regress"
      by (simp_all add: attempt_regress_def)
    show "list_all (\<lambda>r. key_of (get_prop r ''plan_id'') \<noteq> None) [change_of ''P9'']"
      by (simp add: change_of_def get_prop_def)
  qed
  have "cursor (snd (snd (checkAndPerformCatchup env_utc attempt_regress db_P1))) = JNum 50"
    by (simp add: check_cursor res js_or_num_zero)
  then show ?thesis
    using c res by simp
qed

section \<open>A catch-up that fails\<close>

lemma perform_failed:
  "\<not> hasNewData (fst (performCatchupSyncByChangeLogId e a d c)) \<Longrightarrow>
   fst (performCatchupSyncByChangeLogId e a d c) = no_new_data"
proof -
  assume f: "\<not> hasNewData (fst (performCatchupSyncByChangeLogId e a d c))"
  consider (nothing) "brings_nothing (answer a)"
    | (some) p rs where "answer a = Http True (Json True (Some p))" "records p = Some rs" "rs \<noteq> []"
    using answer_cases by blast
  then show ?thesis
  proof cases
    case nothing
    then show ?thesis by (simp add: perform_nothing)
  next
    case some
    obtain b d1 where b: "batchUpdateRecords e (clock a) (batch_io a) d (map with_plan_id rs) = (b, d1)"
      by (cases "batchUpdateRecords e (clock a) (batch_io a) d (map with_plan_id rs)")
    show ?thesis
    proof (cases b)
      case (Inl er)
      then show ?thesis by (simp add: perform_unfold [OF some] b)
    next
      case (Inr n)
      obtain s d2 where sv: "saveLastChangeLogId (clock a) (save_io a) d1 (maxChangeLogId p) = (s, d2)"
        by (cases "saveLastChangeLogId (clock a) (save_io a) d1 (maxChangeLogId p)")
      show ?thesis
      proof (cases s)
        case (Inl er)
        then show ?thesis by (simp add: perform_unfold [OF some] b Inr sv)
      next
        case (Inr u)
        then have "hasNewData (fst (performCatchupSyncByChangeLogId e a d c))"
          using \<open>b = Inr n\<close> by (simp add: perform_unfold [OF some] b sv)
        then show ?thesis using f by simp
      qed
    qed
  qed
qed

lemma check_failed:
  "\<not> hasNewData (fst (checkAndPerformCatchup e a d)) \<Longrightarrow>
   fst (checkAndPerformCatchup e a d) = no_new_data"
  by (auto simp: checkAndPerformCatchup_def Let_def perform_failed)

lemma failed_keeps_cursor:
  assumes "\<not> hasNewData (fst (performCatchupSyncByChangeLogId e a d c))"
  shows "cursor (snd (snd (performCatchupSyncByChangeLogId e a d c))) = cursor d"
proof -
  have "resultMaxId (fst (performCatchupSyncByChangeLogId e a d c)) = None"
    using perform_failed [OF assms] by (simp add: no_new_data_def)
  then show ?thesis
    using perform_cursor [of e a d c] by simp
qed

lemma check_failed_keeps_cursor:
  assumes "\<not> hasNewData (fst (checkAndPerformCatchup e a d))"
  shows "cursor (snd (snd (checkAndPerformCatchup e a d))) = cursor d"
proof -
  have "resultMaxId (fst (checkAndPerformCatchup e a d)) = None"
    using check_failed [OF assms] by (simp add: no_new_data_def)
  then show ?thesis
    using check_cursor [of e a d] by simp
qed

text \<open>
  Claim C5, as the code has it. When the cursor reads as its initial value 0,
  \<open>checkAndPerformCatchup\<close> sends no request, changes nothing in the database and
  resolves to \<open>{hasNewData: false, count: 0}\<close>. When the request fails before anything
  is applied (a thrown error of \<open>fetch\<close>, a response that is not OK, a malformed body)
  or returns an empty list of records, the catch-up sends its one request, leaves the
  whole database (records, metadata with the cursor, aggregate tables) as it was and
  resolves to \<open>{hasNewData: false, count: 0}\<close>. Every catch-up that does not report new
  data, also one whose error is thrown while the batch is written or the cursor saved,
  resolves to \<open>{hasNewData: false, count: 0}\<close> and leaves the persisted cursor as it
  was.
\<close>

theorem C5_catchup_silent:
  "(getLastChangeLogId (read_io a) d = JNum 0 \<longrightarrow>
      checkAndPerformCatchup e a d = (no_new_data, [], d)) \<and>
   (brings_nothing (answer a) \<longrightarrow>
      performCatchupSyncByChangeLogId e a d c = (no_new_data, [c], d) \<and>
      fst (checkAndPerformCatchup e a d) = no_new_data \<and>
      snd (snd (checkAndPerformCatchup e a d)) = d) \<and>
   (\<not> hasNewData (fst (performCatchupSyncByChangeLogId e a d c)) \<longrightarrow>
      fst (performCatchupSyncByChangeLogId e a d c) = no_new_data \<and>
      cursor (snd (snd (performCatchupSyncByChangeLogId e a d c))) = cursor d) \<and>
   (\<not> hasNewData (fst (checkAndPerformCatchup e a d)) \<longrightarrow>
      fst (checkAndPerformCatchup e a d) = no_new_data \<and>
      cursor (snd (snd (checkAndPerformCatchup e a d))) = cursor d)"
proof (intro conjI impI)
  assume "getLastChangeLogId (read_io a) d = JNum 0"
  then show "checkAndPerformCatchup e a d = (no_new_data, [], d)"
    by (rule check_initial)
next
  assume "brings_nothing (answer a)"
  then show "performCatchupSyncByChangeLogId e a d c = (no_new_data, [c], d)"
    by (rule perform_nothing)
next
  assume "brings_nothing (answer a)"
  then show "fst (checkAndPerformCatchup e a d) = no_new_data"
    using check_nothing by blast
next
  assume "brings_nothing (answer a)"
  then show "snd (snd (checkAndPerformCatchup e a d)) = d"
    using check_nothing by blast
next
  assume "\<not> hasNewData (fst (performCatchupSyncByChangeLogId e a d c))"
  then show "fst (performCatchupSyncByChangeLogId e a d c) = no_new_data"
    by (rule perform_failed)
next
  assume "\<not> hasNewData (fst (performCatchupSyncByChangeLogId e a d c))"
  then show "cursor (snd (snd (performCatchupSyncByChangeLogId e a d c))) = cursor d"
    by (rule failed_keeps_cursor)
next
  assume "\<not> hasNewData (fst (checkAndPerformCatchup e a d))"
  then show "fst (checkAndPerformCatchup e a d) = no_new_data"
    by (rule check_failed)
next
  assume "\<not> hasNewData (fst (checkAndPerformCatchup e a d))"
  then show "cursor (snd (snd (checkAndPerformCatchup e a d))) = cursor d"
    by (rule check_failed_keeps_cursor)
qed

text \<open>Two changes are returned; the second carries no \<open>plan_id\<close>, so its \<open>put\<close> throws.\<close>

definition attempt_partial :: attempt where
  "attempt_partial =
     \<lparr>clock = 2000, read_io = True, batch_io = True, save_io = True,
      answer = Http True (Json True (Some
        \<lparr>records = Some [[''plan_id'' \<mapsto> JStr ''P6'', ''customer'' \<mapsto> JStr ''ACME''],
                         [''customer'' \<mapsto> JStr ''ACME'']],
         maxChangeLogId = JNum 102\<rparr>))\<rparr>"

text \<open>One change is returned and written; the write of the cursor fails.\<close>

definition attempt_unsaved :: attempt where
  "attempt_unsaved =
     \<lparr>clock = 2000, read_io = True, batch_io = True, save_io = False,
      answer = Http True (Json True (Some
        \<lparr>records = Some [[''plan_id'' \<mapsto> JStr ''P6'', ''customer'' \<mapsto> JStr ''ACME'']],
         maxChangeLogId = JNum 101\<rparr>))\<rparr>"

lemma partial_result:
  "performCatchupSyncByChangeLogId env_utc attempt_partial db_P1 (JNum 100) =
     (no_new_data, [JNum 100],
      db_P1\<lparr>allData := (allData db_P1)
        (KStr ''P6'' \<mapsto> [''plan_id'' \<mapsto> JStr ''P6'', ''customer'' \<mapsto> JStr ''ACME'',
                          ''id'' \<mapsto> JStr ''P6'', ''timestamp'' \<mapsto> JNaN])\<rparr>)"
  by (simp add: performCatchupSyncByChangeLogId_def attempt_partial_def batchUpdateRecords_def
      with_timestamp_def get_prop_def env_utc_def)

lemma unsaved_result:
  "performCatchupSyncByChangeLogId env_utc attempt_unsaved db_P1 (JNum 100) =
     (no_new_data, [JNum 100],
      db_P1\<lparr>allData := (allData db_P1)
        (KStr ''P6'' \<mapsto> [''plan_id'' \<mapsto> JStr ''P6'', ''customer'' \<mapsto> JStr ''ACME'',
                          ''id'' \<mapsto> JStr ''P6'', ''timestamp'' \<mapsto> JNaN]),
        meta := Some (touch_meta 2000 (meta db_P1))\<rparr>)"
  by (simp add: performCatchupSyncByChangeLogId_def attempt_unsaved_def batchUpdateRecords_def
      with_timestamp_def get_prop_def env_utc_def saveLastChangeLogId_def)

theorem C5_catchup_silent_witness:
  "getLastChangeLogId (read_io attempt_offline) empty_db = JNum 0 \<and>
   checkAndPerformCatchup env_utc attempt_offline empty_db = (no_new_data, [], empty_db) \<and>
   brings_nothing (answer attempt_empty) \<and>
   getLastChangeLogId True db_P1 = JNum 100 \<and>
   performCatchupSyncByChangeLogId env_utc attempt_empty db_P1 (JNum 100) =
     (no_new_data, [JNum 100], db_P1) \<and>
   snd (snd (checkAndPerformCatchup env_utc attempt_empty db_P1)) = db_P1 \<and>
   \<not> hasNewData (fst (performCatchupSyncByChangeLogId env_utc attempt_unsaved db_P1 (JNum 100))) \<and>
   \<not> hasNewData (fst (checkAndPerformCatchup env_utc attempt_unsaved db_P1)) \<and>
   cursor (snd (snd (performCatchupSyncByChangeLogId env_utc attempt_unsaved db_P1 (JNum 100)))) = JNum 100 \<and>
   cursor (snd (snd (checkAndPerformCatchup env_utc attempt_unsaved db_P1))) = JNum 100"
proof -
  have z: "getLastChangeLogId (read_io attempt_offline) empty_db = JNum 0"
    by (simp add: getLastChangeLogId_def empty_db_def)
  have b: "brings_nothing (answer attempt_empty)"
    by (simp add: attempt_empty_def)
  have c: "getLastChangeLogId True db_P1 = JNum 100"
    by (simp add: getLastChangeLogId_def db_P1_def get_prop_def js_or_def)
  have r: "getLastChangeLogId (read_io attempt_unsaved) db_P1 = JNum 100"
    using c by (simp add: attempt_unsaved_def)
  have k: "checkAndPerformCatchup env_utc attempt_unsaved db_P1 =
      performCatchupSyncByChangeLogId env_utc attempt_unsaved db_P1 (JNum 100)"
    by (simp add: checkAndPerformCatchup_def Let_def r)
  have u: "\<not> hasNewData (fst (performCatchupSyncByChangeLogId env_utc attempt_unsaved db_P1 (JNum 100)))"
    by (simp add: unsaved_result no_new_data_def)
  have cur: "cursor db_P1 = JNum 100"
    using c by (simp add: cursor_def)
  note T1 = C5_catchup_silent [where a = attempt_offline and d = empty_db and e = env_utc]
  note T2 = C5_catchup_silent [where a = attempt_empty and d = db_P1 and e = env_utc and c = "JNum 100"]
  note T3 = C5_catchup_silent [where a = attempt_unsaved and d = db_P1 and e = env_utc and c = "JNum 100"]
  have p1: "checkAndPerformCatchup env_utc attempt_offline empty_db = (no_new_data, [], empty_db)"
    using T1 z by blast
  have p2: "performCatchupSyncByChangeLogId env_utc attempt_empty db_P1 (JNum 100) =
     (no_new_data, [JNum 100], db_P1) \<and>
     snd (snd (checkAndPerformCatchup env_utc attempt_empty db_P1)) = db_P1"
    using T2 b by blast
  have p3: "cursor (snd (snd (performCatchupSyncByChangeLogId env_utc attempt_unsaved db_P1 (JNum 100)))) = JNum 100"
    using T3 u cur by simp
  have p4: "\<not> hasNewData (fst (checkAndPerformCatchup env_utc attempt_unsaved db_P1))"
    using u k by simp
  have p5: "cursor (snd (snd (checkAndPerformCatchup env_utc attempt_unsaved db_P1))) = JNum 100"
    using p3 k by simp
  show ?thesis
    using z p1 b c p2 u p4 p3 p5 by blast
qed

text \<open>
  The claim as stated fails for an error thrown after the first write. With two changes
  of which the second has no \<open>plan_id\<close>, the first is written, \<open>put\<close> throws on the
  second, and the call resolves to \<open>{hasNewData: false, count: 0}\<close> with the record
  \<open>P6\<close> in the table. With one change and a cursor write that fails, the call resolves
  to the same value with the record written and the sync time of the metadata moved.
\<close>

theorem C5_partial_application_counterexample:
  "fst (performCatchupSyncByChangeLogId env_utc attempt_partial db_P1 (JNum 100)) = no_new_data \<and>
   allData db_P1 (KStr ''P6'') = None \<and>
   allData (snd (snd (performCatchupSyncByChangeLogId env_utc attempt_partial db_P1 (JNum 100))))
     (KStr ''P6'') \<noteq> None \<and>
   fst (performCatchupSyncByChangeLogId env_utc attempt_unsaved db_P1 (JNum 100)) = no_new_data \<and>
   allData (snd (snd (performCatchupSyncByChangeLogId env_utc attempt_unsaved db_P1 (JNum 100))))
     (KStr ''P6'') \<noteq> None \<and>
   getLastSyncTime True db_P1 = JNum 1000 \<and>
   getLastSyncTime True (snd (snd (performCatchupSyncByChangeLogId env_utc attempt_unsaved db_P1 (JNum 100))))
     = JNum 2000"
proof -
  have a: "allData db_P1 (KStr ''P6'') = None"
    by (simp add: db_P1_def)
  have t: "getLastSyncTime True db_P1 = JNum 1000"
    by (simp add: getLastSyncTime_def db_P1_def get_prop_def js_or_def)
  have t2: "getLastSyncTime True (db_P1\<lparr>allData := st, meta := Some (touch_meta 2000 (meta db_P1))\<rparr>)
      = JNum 2000" for st
    by (simp add: getLastSyncTime_def touch_meta_def get_prop_def js_or_def db_P1_def)
  show ?thesis
    by (simp add: partial_result unsaved_result a t t2)
qed

section \<open>Bulk storing (CacheManager.storeBatch)\<close>

text \<open>
  \<open>getMonthKey(date)\<close>: \<open>new Date(date)\<close>, then the local year and the local month
  padded to two digits; an Invalid Date gives \<open>NaN_NaN\<close>.
\<close>

definition getMonthKey :: "env \<Rightarrow> jsval \<Rightarrow> string" where
  "getMonthKey e v =
     (case new_Date e v of
        None \<Rightarrow> ''NaN_NaN''
      | Some t \<Rightarrow>
          (let (y, m) = year_month_of_day (local_of_utc e t div 86400000)
           in string_of_int y @ ''_'' @ (if m < 10 then ''0'' else '''') @ string_of_int m))"

text \<open>One record of \<open>storeBatch\<close>; the generated identifier ends in a random number.\<close>

definition storeBatch_record :: "env \<Rightarrow> jsval \<Rightarrow> obj \<Rightarrow> obj" where
  "storeBatch_record e gen record =
     (let sr = standardRecord gen record in
      if truthy (get_prop sr ''start_time'')
      then sr(''timestamp'' \<mapsto> parseTimeToTimestamp e (get_prop sr ''start_time''),
              ''month_key'' \<mapsto> JStr (getMonthKey e (get_prop sr ''start_time'')))
      else sr)"


section \<open>Strings that parse to nothing\<close>





















lemma standardRecord_own:
  "rcd k = Some v \<Longrightarrow> get_prop (standardRecord g rcd) k = v"
  by (simp add: standardRecord_apply [of g rcd k] get_prop_def)

lemma standardRecord_start_time:
  "get_prop (standardRecord g rcd) ''start_time'' = get_prop (standardRecord JNull rcd) ''start_time''"
  by (simp add: get_prop_def standardRecord_def map_add_def split: option.splits)

lemma derived_timestamp:
  "truthy (get_prop sr ''start_time'') \<Longrightarrow>
   get_prop (derive_timestamp e sr) ''timestamp'' = parseTimeToTimestamp e (get_prop sr ''start_time'')"
  by (simp add: derive_timestamp_def get_prop_def)

lemma storeBatch_timestamp:
  "truthy (get_prop (standardRecord g rcd) ''start_time'') \<Longrightarrow>
   get_prop (storeBatch_record e g rcd) ''timestamp'' =
     parseTimeToTimestamp e (get_prop (standardRecord g rcd) ''start_time'')"
  by (simp add: storeBatch_record_def Let_def get_prop_def)

lemma paths_agree:
  assumes "truthy (get_prop (standardRecord JNull rcd) ''start_time'')"
  shows "get_prop (storeBatch_record e g1 rcd) ''timestamp'' =
           parseTimeToTimestamp e (get_prop (standardRecord JNull rcd) ''start_time'')"
    and "get_prop (preprocess_record e g2 rcd) ''timestamp'' =
           parseTimeToTimestamp e (get_prop (standardRecord JNull rcd) ''start_time'')"
    and "get_prop (append_record e now rcd) ''timestamp'' =
           parseTimeToTimestamp e (get_prop (standardRecord JNull rcd) ''start_time'')"
proof -
  have t: "truthy (get_prop (standardRecord g rcd) ''start_time'')" for g
    using assms standardRecord_start_time [of g rcd] by simp
  show "get_prop (storeBatch_record e g1 rcd) ''timestamp'' =
           parseTimeToTimestamp e (get_prop (standardRecord JNull rcd) ''start_time'')"
    using storeBatch_timestamp [OF t, of e g1] standardRecord_start_time [of g1 rcd] by simp
  show "get_prop (preprocess_record e g2 rcd) ''timestamp'' =
           parseTimeToTimestamp e (get_prop (standardRecord JNull rcd) ''start_time'')"
    using derived_timestamp [OF t, of e g2] standardRecord_start_time [of g2 rcd]
    by (simp add: preprocess_record_def)
  show "get_prop (append_record e now rcd) ''timestamp'' =
           parseTimeToTimestamp e (get_prop (standardRecord JNull rcd) ''start_time'')"
    using derived_timestamp [OF t, of e "JStr (''record_'' @ string_of_int now @ ''_0'')"]
      standardRecord_start_time [of "JStr (''record_'' @ string_of_int now @ ''_0'')" rcd]
    by (simp add: append_record_def)
qed

lemma paths_agree_string:
  assumes "rcd ''start_time'' = Some (JStr s)" and "s \<noteq> []"
  shows "get_prop (storeBatch_record e g1 rcd) ''timestamp'' = parseTimeToTimestamp e (JStr s)"
    and "get_prop (preprocess_record e g2 rcd) ''timestamp'' = parseTimeToTimestamp e (JStr s)"
    and "get_prop (append_record e now rcd) ''timestamp'' = parseTimeToTimestamp e (JStr s)"
proof -
  have v: "get_prop (standardRecord JNull rcd) ''start_time'' = JStr s"
    using assms(1) by (rule standardRecord_own)
  then have t: "truthy (get_prop (standardRecord JNull rcd) ''start_time'')"
    using assms(2) by simp
  show "get_prop (storeBatch_record e g1 rcd) ''timestamp'' = parseTimeToTimestamp e (JStr s)"
    using paths_agree(1) [OF t] v by simp
  show "get_prop (preprocess_record e g2 rcd) ''timestamp'' = parseTimeToTimestamp e (JStr s)"
    using paths_agree(2) [OF t] v by simp
  show "get_prop (append_record e now rcd) ''timestamp'' = parseTimeToTimestamp e (JStr s)"
    using paths_agree(3) [OF t] v by simp
qed

section \<open>parseTimeToTimestamp\<close>







section \<open>The timestamp on each ingestion path\<close>









text \<open>
  The live paths compute a missing timestamp with the engine's own parser. In a browser
  eight hours east of Greenwich, whose engine reads the ISO string
  \<open>2024-01-31T20:30:00Z\<close> as the instant it denotes, \<open>updateRecord\<close> stores that
  instant, and \<open>appendData\<close> stores 20:30 local time, eight hours earlier.
\<close>

definition env_east8 :: env where
  "env_east8 =
     \<lparr>utc_of_local = (\<lambda>t. t - 28800000), local_of_utc = (\<lambda>t. t + 28800000),
      date_parse = (\<lambda>s. if s = ''2024-01-31T20:30:00Z'' then Some 1706733000000 else None),
      date_toString = date_text 480 ''China Standard Time''\<rparr>"

definition rec_iso :: obj where
  "rec_iso = [''id'' \<mapsto> JStr ''P3'', ''start_time'' \<mapsto> JStr ''2024-01-31T20:30:00Z'']"

lemma native_parse_example:
  "get_prop (with_timestamp env_east8 rec_iso) ''timestamp'' = JNum 1706733000000 \<and>
   get_prop (append_record env_east8 2000 rec_iso) ''timestamp'' = JNum 1706704200000"
proof -
  have p: "parseTimeToTimestamp env_east8 (JStr ''2024-01-31T20:30:00Z'') = JNum 1706704200000"
    by code_simp
  have r: "rec_iso ''start_time'' = Some (JStr ''2024-01-31T20:30:00Z'')"
    by (simp add: rec_iso_def)
  have a: "get_prop (append_record env_east8 2000 rec_iso) ''timestamp'' =
      parseTimeToTimestamp env_east8 (JStr ''2024-01-31T20:30:00Z'')"
    using r by (rule paths_agree_string(3)) simp
  have w: "get_prop (with_timestamp env_east8 rec_iso) ''timestamp'' = JNum 1706733000000"
    by (simp add: with_timestamp_def rec_iso_def get_prop_def env_east8_def)
  show ?thesis
    using a w p by simp
qed

section \<open>The live connection (WebSocketSyncManager)\<close>

datatype readyState = CONNECTING | OPEN | CLOSING | CLOSED

text \<open>
  The fields of the manager that the connection logic reads and writes, and the sockets
  it has made. \<open>sockets\<close> holds the \<open>readyState\<close> of every socket created by
  \<open>new WebSocket\<close>, oldest first; \<open>ws\<close> says which of them \<open>this.ws\<close> is
  (\<open>None\<close> for \<open>null\<close>). An older socket stays in the list, and its events still reach
  the handlers of the manager. \<open>heartbeatInterval\<close> says whether the interval timer is
  installed. Three counters record what the manager asked of the browser: calls of
  \<open>ws.close()\<close>, heartbeats sent, and reconnect timers set with \<open>setTimeout\<close>.
\<close>

record sync_manager =
  wsUrl :: bool
  sockets :: "readyState list"
  ws :: "nat option"
  isConnected :: bool
  isReconnecting :: bool
  heartbeatInterval :: bool
  missedHeartbeats :: nat
  closeCalls :: nat
  heartbeatsSent :: nat
  reconnectsScheduled :: nat

definition maxMissedHeartbeats :: nat where
  "maxMissedHeartbeats = 3"

text \<open>\<open>this.ws.readyState\<close>, \<open>None\<close> when \<open>this.ws\<close> is \<open>null\<close>.\<close>

definition ws_readyState :: "sync_manager \<Rightarrow> readyState option" where
  "ws_readyState m =
     (case ws m of
        None \<Rightarrow> None
      | Some i \<Rightarrow> if i < length (sockets m) then Some (sockets m ! i) else None)"

text \<open>
  \<open>this.ws.close()\<close>: an open or connecting socket starts to close and is \<open>CLOSING\<close>
  until the browser delivers its close event; on a socket that is closing or closed the
  call does nothing. The code calls it only where \<open>this.ws\<close> is a socket.
\<close>

definition ws_close :: "sync_manager \<Rightarrow> sync_manager" where
  "ws_close m =
     (case ws m of
        None \<Rightarrow> m
      | Some i \<Rightarrow>
          m\<lparr>sockets := (sockets m)[i := (if sockets m ! i = CLOSED then CLOSED else CLOSING)],
            closeCalls := closeCalls m + 1\<rparr>)"

definition stopHeartbeat :: "sync_manager \<Rightarrow> sync_manager" where
  "stopHeartbeat m = (if heartbeatInterval m then m\<lparr>heartbeatInterval := False\<rparr> else m)"

definition startHeartbeat :: "sync_manager \<Rightarrow> sync_manager" where
  "startHeartbeat m = (stopHeartbeat m)\<lparr>heartbeatInterval := True\<rparr>"

text \<open>\<open>send(data)\<close>: only on an open socket.\<close>

definition send :: "sync_manager \<Rightarrow> sync_manager" where
  "send m =
     (if ws_readyState m = Some OPEN then m\<lparr>heartbeatsSent := heartbeatsSent m + 1\<rparr> else m)"

text \<open>The callback of the 30 second interval set by \<open>startHeartbeat\<close>.\<close>

definition heartbeat_tick :: "sync_manager \<Rightarrow> sync_manager" where
  "heartbeat_tick m =
     (if ws_readyState m = Some OPEN then
        (let m1 = m\<lparr>missedHeartbeats := missedHeartbeats m + 1\<rparr> in
         if missedHeartbeats m1 \<ge> maxMissedHeartbeats then ws_close m1 else send m1)
      else m)"

definition scheduleReconnect :: "sync_manager \<Rightarrow> sync_manager" where
  "scheduleReconnect m =
     (if isReconnecting m then m
      else m\<lparr>isReconnecting := True, reconnectsScheduled := reconnectsScheduled m + 1\<rparr>)"

text \<open>\<open>handleClose(event)\<close>, with the \<open>wasClean\<close> flag of the event.\<close>

definition handleClose :: "bool \<Rightarrow> sync_manager \<Rightarrow> sync_manager" where
  "handleClose wasClean m =
     (let m1 = stopHeartbeat (m\<lparr>isConnected := False\<rparr>)
      in if \<not> wasClean \<and> \<not> isReconnecting m1 then scheduleReconnect m1 else m1)"

text \<open>\<open>handleOpen()\<close>.\<close>

definition handleOpen :: "sync_manager \<Rightarrow> sync_manager" where
  "handleOpen m =
     startHeartbeat (m\<lparr>isConnected := True, isReconnecting := False, missedHeartbeats := 0\<rparr>)"

text \<open>
  \<open>connect()\<close>; \<open>throws\<close> says whether the socket constructor throws. The new socket
  is connecting and becomes \<open>this.ws\<close>.
\<close>

definition connect :: "bool \<Rightarrow> sync_manager \<Rightarrow> sync_manager" where
  "connect throws m =
     (if \<not> wsUrl m then m
      else if ws_readyState m = Some CONNECTING \<or> ws_readyState m = Some OPEN then m
      else if throws then scheduleReconnect m
      else m\<lparr>sockets := sockets m @ [CONNECTING], ws := Some (length (sockets m))\<rparr>)"

text \<open>
  What can happen to the manager: the heartbeat interval elapses (the callback runs
  only while the timer is installed), a heartbeat message arrives, the browser opens
  a connecting socket or closes a socket that is not yet closed and delivers the event
  to the handler (the socket has its new \<open>readyState\<close> when the handler runs), the
  reconnect timer fires and calls \<open>connect()\<close>.
\<close>

datatype ws_event =
  HeartbeatInterval | HeartbeatMessage | OpenEvent nat | CloseEvent nat bool | ReconnectTimer bool

fun ws_step :: "sync_manager \<Rightarrow> ws_event \<Rightarrow> sync_manager" where
  "ws_step m HeartbeatInterval = (if heartbeatInterval m then heartbeat_tick m else m)"
| "ws_step m HeartbeatMessage = m\<lparr>missedHeartbeats := 0\<rparr>"
| "ws_step m (OpenEvent i) =
     (if i < length (sockets m) \<and> sockets m ! i = CONNECTING
      then handleOpen (m\<lparr>sockets := (sockets m)[i := OPEN]\<rparr>) else m)"
| "ws_step m (CloseEvent i wasClean) =
     (if i < length (sockets m) \<and> sockets m ! i \<noteq> CLOSED
      then handleClose wasClean (m\<lparr>sockets := (sockets m)[i := CLOSED]\<rparr>) else m)"
| "ws_step m (ReconnectTimer throws) = connect throws m"

definition ws_run :: "sync_manager \<Rightarrow> ws_event list \<Rightarrow> sync_manager" where
  "ws_run m evs = foldl ws_step m evs"

text \<open>The manager as its constructor leaves it, with a configured URL.\<close>

definition new_manager :: sync_manager where
  "new_manager =
     \<lparr>wsUrl = True, sockets = [], ws = None, isConnected = False, isReconnecting = False,
      heartbeatInterval = False, missedHeartbeats = 0, closeCalls = 0,
      heartbeatsSent = 0, reconnectsScheduled = 0\<rparr>"

text \<open>A manager whose first connection has just opened: \<open>connect()\<close>, then the open event.\<close>

definition connected :: sync_manager where
  "connected = ws_run new_manager [ReconnectTimer False, OpenEvent 0]"

text \<open>The state the claim starts from: \<open>this.ws\<close> is the open socket \<open>i\<close>, the
  heartbeat timer runs, no heartbeat is missed and no reconnect is pending.\<close>

definition listening :: "nat \<Rightarrow> sync_manager \<Rightarrow> bool" where
  "listening i m =
     (ws m = Some i \<and> i < length (sockets m) \<and> sockets m ! i = OPEN \<and> heartbeatInterval m \<and>
      missedHeartbeats m = 0 \<and> \<not> isReconnecting m)"

lemma three_intervals:
  assumes "listening i m"
  shows "ws_run m [HeartbeatInterval, HeartbeatInterval, HeartbeatInterval] =
     m\<lparr>missedHeartbeats := 3, heartbeatsSent := heartbeatsSent m + 2,
       sockets := (sockets m)[i := CLOSING], closeCalls := closeCalls m + 1\<rparr>"
  using assms
  by (simp add: listening_def ws_run_def heartbeat_tick_def send_def maxMissedHeartbeats_def
      ws_readyState_def ws_close_def Let_def)

lemma two_intervals:
  assumes "listening i m"
  shows "closeCalls (ws_run m [HeartbeatInterval, HeartbeatInterval]) = closeCalls m \<and>
         sockets (ws_run m [HeartbeatInterval, HeartbeatInterval]) = sockets m"
  using assms
  by (simp add: listening_def ws_run_def heartbeat_tick_def send_def maxMissedHeartbeats_def
      ws_readyState_def Let_def)

lemma closing_intervals:
  "ws_readyState m = Some CLOSING \<Longrightarrow> ws_run m (replicate n HeartbeatInterval) = m"
  by (induction n) (simp_all add: ws_run_def heartbeat_tick_def)

lemma pending_step:
  "isReconnecting m \<Longrightarrow> \<forall>i. ev \<noteq> OpenEvent i \<Longrightarrow>
   isReconnecting (ws_step m ev) \<and> reconnectsScheduled (ws_step m ev) = reconnectsScheduled m"
  by (cases ev)
     (auto simp: heartbeat_tick_def send_def handleClose_def stopHeartbeat_def scheduleReconnect_def
        connect_def ws_close_def Let_def split: option.splits)

lemma pending_run:
  "isReconnecting m \<Longrightarrow> list_all (\<lambda>ev. \<forall>i. ev \<noteq> OpenEvent i) evs \<Longrightarrow>
   reconnectsScheduled (ws_run m evs) = reconnectsScheduled m"
proof (induction evs arbitrary: m)
  case Nil
  show ?case by (simp add: ws_run_def)
next
  case (Cons ev evs)
  have "isReconnecting (ws_step m ev) \<and> reconnectsScheduled (ws_step m ev) = reconnectsScheduled m"
    using Cons.prems by (intro pending_step) simp_all
  then show ?case
    using Cons.IH [of "ws_step m ev"] Cons.prems(2) by (simp add: ws_run_def)
qed

lemma close_after_timeout:
  assumes "listening i m"
  shows "ws_step (ws_run m [HeartbeatInterval, HeartbeatInterval, HeartbeatInterval])
           (CloseEvent i wasClean) =
     m\<lparr>missedHeartbeats := 3, heartbeatsSent := heartbeatsSent m + 2,
       sockets := (sockets m)[i := CLOSED],
       closeCalls := closeCalls m + 1, isConnected := False, heartbeatInterval := False,
       isReconnecting := \<not> wasClean,
       reconnectsScheduled := (if wasClean then reconnectsScheduled m else reconnectsScheduled m + 1)\<rparr>"
proof -
  have e: "ws_run m [HeartbeatInterval, HeartbeatInterval, HeartbeatInterval] =
     m\<lparr>missedHeartbeats := 3, heartbeatsSent := heartbeatsSent m + 2,
       sockets := (sockets m)[i := CLOSING], closeCalls := closeCalls m + 1\<rparr>"
    using assms by (rule three_intervals)
  show ?thesis
    using assms
    by (simp add: e handleClose_def stopHeartbeat_def scheduleReconnect_def Let_def listening_def)
qed

text \<open>
  What the heartbeat timeout does, for every manager that listens on an open socket.
  Two silent intervals close nothing; the third calls \<open>ws.close()\<close>, once, and leaves
  the socket closing, so that later intervals do nothing. No reconnect is scheduled by
  the interval itself. When the close event of the socket is not clean, \<open>handleClose\<close>
  schedules exactly one reconnect, and nothing schedules another while it is pending
  (until a socket opens); when the close event is clean, \<open>handleClose\<close> schedules
  none.
\<close>

lemma heartbeat_timeout:
  assumes l: "listening i m"
  shows "closeCalls (ws_run m [HeartbeatInterval, HeartbeatInterval]) = closeCalls m"
    and "closeCalls (ws_run m [HeartbeatInterval, HeartbeatInterval, HeartbeatInterval]) = closeCalls m + 1"
    and "ws_readyState (ws_run m [HeartbeatInterval, HeartbeatInterval, HeartbeatInterval]) = Some CLOSING"
    and "reconnectsScheduled (ws_run m [HeartbeatInterval, HeartbeatInterval, HeartbeatInterval]) =
           reconnectsScheduled m"
    and "ws_run (ws_run m [HeartbeatInterval, HeartbeatInterval, HeartbeatInterval])
           (replicate n HeartbeatInterval) =
           ws_run m [HeartbeatInterval, HeartbeatInterval, HeartbeatInterval]"
    and "reconnectsScheduled
           (ws_run m [HeartbeatInterval, HeartbeatInterval, HeartbeatInterval, CloseEvent i False]) =
           reconnectsScheduled m + 1"
    and "list_all (\<lambda>ev. \<forall>j. ev \<noteq> OpenEvent j) evs \<Longrightarrow>
           reconnectsScheduled
             (ws_run m ([HeartbeatInterval, HeartbeatInterval, HeartbeatInterval, CloseEvent i False] @ evs)) =
             reconnectsScheduled m + 1"
    and "reconnectsScheduled
           (ws_run m [HeartbeatInterval, HeartbeatInterval, HeartbeatInterval, CloseEvent i True]) =
           reconnectsScheduled m"
proof -
  let ?m3 = "ws_run m [HeartbeatInterval, HeartbeatInterval, HeartbeatInterval]"
  have run4: "ws_run m [HeartbeatInterval, HeartbeatInterval, HeartbeatInterval, CloseEvent i b] =
      ws_step ?m3 (CloseEvent i b)" for b
    by (simp add: ws_run_def)
  have app: "ws_run m ([HeartbeatInterval, HeartbeatInterval, HeartbeatInterval, CloseEvent i False] @ evs) =
      ws_run (ws_step ?m3 (CloseEvent i False)) evs"
    by (simp add: ws_run_def)
  show "closeCalls (ws_run m [HeartbeatInterval, HeartbeatInterval]) = closeCalls m"
    using two_intervals [OF l] by simp
  show "closeCalls ?m3 = closeCalls m + 1"
    by (simp add: three_intervals [OF l])
  show closing: "ws_readyState ?m3 = Some CLOSING"
    using l by (simp add: three_intervals [OF l] ws_readyState_def listening_def)
  show "reconnectsScheduled ?m3 = reconnectsScheduled m"
    by (simp add: three_intervals [OF l])
  show "ws_run ?m3 (replicate n HeartbeatInterval) = ?m3"
    using closing by (rule closing_intervals)
  show "reconnectsScheduled
       (ws_run m [HeartbeatInterval, HeartbeatInterval, HeartbeatInterval, CloseEvent i False]) =
       reconnectsScheduled m + 1"
    by (simp only: run4 close_after_timeout [OF l]) simp
  show "reconnectsScheduled
       (ws_run m [HeartbeatInterval, HeartbeatInterval, HeartbeatInterval, CloseEvent i True]) =
       reconnectsScheduled m"
    by (simp only: run4 close_after_timeout [OF l]) simp
  have pend: "isReconnecting (ws_step ?m3 (CloseEvent i False))"
    by (simp only: close_after_timeout [OF l]) simp
  show "reconnectsScheduled
          (ws_run m ([HeartbeatInterval, HeartbeatInterval, HeartbeatInterval, CloseEvent i False] @ evs)) =
          reconnectsScheduled m + 1"
    if a: "list_all (\<lambda>ev. \<forall>j. ev \<noteq> OpenEvent j) evs"
  proof -
    have "reconnectsScheduled (ws_run (ws_step ?m3 (CloseEvent i False)) evs) =
        reconnectsScheduled (ws_step ?m3 (CloseEvent i False))"
      using pend a by (rule pending_run)
    also have "\<dots> = reconnectsScheduled m + 1"
      by (simp only: close_after_timeout [OF l]) simp
    finally show ?thesis
      by (subst app)
  qed
qed

text \<open>
  Claim C8, at the input where the code misses it. The connection is open and the
  heartbeat timer runs; three intervals pass without a heartbeat message, and the third
  calls \<open>ws.close()\<close>. The closing handshake completes, so the close event is clean:
  \<open>handleClose\<close> schedules no reconnect, and none is scheduled by the intervals that
  follow. The timeout has closed the connection and zero reconnects are scheduled, where
  the claim (and the message the timeout branch logs) says one.
\<close>

theorem C8_timeout_clean_close:
  "listening 0 connected \<and>
   missedHeartbeats (ws_run connected [HeartbeatInterval, HeartbeatInterval, HeartbeatInterval]) = 3 \<and>
   closeCalls (ws_run connected [HeartbeatInterval, HeartbeatInterval, HeartbeatInterval]) = 1 \<and>
   sockets (ws_run connected [HeartbeatInterval, HeartbeatInterval, HeartbeatInterval]) = [CLOSING] \<and>
   sockets (ws_run connected
     [HeartbeatInterval, HeartbeatInterval, HeartbeatInterval, CloseEvent 0 True]) = [CLOSED] \<and>
   reconnectsScheduled (ws_run connected
     [HeartbeatInterval, HeartbeatInterval, HeartbeatInterval, CloseEvent 0 True]) = 0 \<and>
   \<not> isReconnecting (ws_run connected
     [HeartbeatInterval, HeartbeatInterval, HeartbeatInterval, CloseEvent 0 True]) \<and>
   reconnectsScheduled (ws_run connected
     [HeartbeatInterval, HeartbeatInterval, HeartbeatInterval, CloseEvent 0 True,
      HeartbeatInterval, HeartbeatInterval, HeartbeatInterval]) = 0 \<and>
   reconnectsScheduled (ws_run connected
     [HeartbeatInterval, HeartbeatInterval, HeartbeatInterval, CloseEvent 0 False]) = 1"
  by (simp add: ws_run_def connected_def new_manager_def connect_def handleOpen_def
      startHeartbeat_def stopHeartbeat_def heartbeat_tick_def send_def maxMissedHeartbeats_def
      handleClose_def scheduleReconnect_def ws_readyState_def ws_close_def listening_def Let_def)

text \<open>
  The socket a close event belongs to need not be \<open>this.ws\<close>: when the reconnect
  timer replaces a socket that is still closing, the close event of the old socket
  leaves the new one connecting.
\<close>

lemma close_of_replaced_socket:
  "ws_readyState (ws_run connected
     [HeartbeatInterval, HeartbeatInterval, HeartbeatInterval, ReconnectTimer False,
      CloseEvent 0 True]) = Some CONNECTING \<and>
   sockets (ws_run connected
     [HeartbeatInterval, HeartbeatInterval, HeartbeatInterval, ReconnectTimer False,
      CloseEvent 0 True]) = [CLOSED, CONNECTING]"
  by (simp add: ws_run_def connected_def new_manager_def connect_def handleOpen_def
      startHeartbeat_def stopHeartbeat_def heartbeat_tick_def send_def maxMissedHeartbeats_def
      handleClose_def scheduleReconnect_def ws_readyState_def ws_close_def Let_def)

section \<open>Storage workers of the bulk load (DataPreloader.parallelShardedLoad)\<close>

text \<open>
  The persist stage runs \<open>STORAGE_WORKERS = 3\<close> asynchronous workers over the shared
  queues \<open>taskQueues\<close> (one per partition) and the shared set \<open>lockedPartitions\<close>.
  The workers run on one thread: a worker runs without interruption from one
  \<open>await\<close> to the next, so the state is observed only while every worker is
  suspended: waiting on the 10 ms timer, waiting for
  \<open>storePartitionedBatch(batch, storeName, true)\<close> on a partition, or finished.
  The write itself belongs to the cache manager; here it is the suspension, which ends
  with the promise resolved or rejected. \<open>getPartitionStoreName\<close> only names the
  table of a partition.
\<close>

type_synonym partition_id = string

datatype worker_state = Waiting | Writing partition_id "obj list" | Finished

record pipeline =
  partitions :: "partition_id list"
  taskQueues :: "partition_id \<Rightarrow> obj list"
  lockedPartitions :: "partition_id set"
  workers :: "nat \<Rightarrow> worker_state"
  downloadComplete :: bool
  totalLoaded :: nat
  completedShards :: nat

definition STORAGE_WORKERS :: nat where
  "STORAGE_WORKERS = 3"

definition MIN_BATCH_SIZE :: nat where
  "MIN_BATCH_SIZE = 50000"

text \<open>The batch size: everything when at most \<open>MIN_BATCH_SIZE * 0.4\<close> records are left.\<close>

definition batchSize :: "nat \<Rightarrow> nat" where
  "batchSize n = (if 10 * n \<le> 4 * MIN_BATCH_SIZE then n else min n MIN_BATCH_SIZE)"

definition hasTasksInQueues :: "pipeline \<Rightarrow> bool" where
  "hasTasksInQueues s = list_ex (\<lambda>p. taskQueues s p \<noteq> []) (partitions s)"

text \<open>\<open>queue.splice(0, batchSize)\<close> followed by the call of the write: the worker is
  suspended on it.\<close>

definition start_write :: "nat \<Rightarrow> partition_id \<Rightarrow> pipeline \<Rightarrow> pipeline" where
  "start_write w p s =
     (let q = taskQueues s p; n = batchSize (length q)
      in s\<lparr>taskQueues := (taskQueues s)(p := drop n q),
            workers := (workers s)(w := Writing p (take n q))\<rparr>)"

text \<open>
  One turn of the outer loop of worker \<open>w\<close>, from its condition to the next
  \<open>await\<close>: the worker finishes, or takes the first partition in the order of
  \<open>Object.entries(taskQueues)\<close> whose queue is not empty and which is not locked,
  locks it and starts writing its first batch, or sleeps for 10 ms.
\<close>

definition scan :: "nat \<Rightarrow> pipeline \<Rightarrow> pipeline" where
  "scan w s =
     (if downloadComplete s \<and> \<not> hasTasksInQueues s
      then s\<lparr>workers := (workers s)(w := Finished)\<rparr>
      else
        (case find (\<lambda>p. taskQueues s p \<noteq> [] \<and> p \<notin> lockedPartitions s) (partitions s) of
           None \<Rightarrow> s\<lparr>workers := (workers s)(w := Waiting)\<rparr>
         | Some p \<Rightarrow> start_write w p (s\<lparr>lockedPartitions := insert p (lockedPartitions s)\<rparr>)))"

text \<open>The \<open>finally\<close> block: \<open>lockedPartitions.delete(currentPartitionId)\<close>.\<close>

definition release :: "partition_id \<Rightarrow> pipeline \<Rightarrow> pipeline" where
  "release p s = s\<lparr>lockedPartitions := lockedPartitions s - {p}\<rparr>"

text \<open>
  The write of batch \<open>b\<close> resolved: the totals grow; while the queue of the partition
  is not empty the next batch is written under the same lock; otherwise the partition is
  counted as completed, the lock is released and the outer loop goes on.
\<close>

definition write_resolved :: "nat \<Rightarrow> partition_id \<Rightarrow> obj list \<Rightarrow> pipeline \<Rightarrow> pipeline" where
  "write_resolved w p b s =
     (let s1 = s\<lparr>totalLoaded := totalLoaded s + length b\<rparr> in
      if taskQueues s1 p \<noteq> [] then start_write w p s1
      else scan w (release p (s1\<lparr>completedShards := completedShards s1 + 1\<rparr>)))"

text \<open>The write rejected: the \<open>catch\<close> block logs, the \<open>finally\<close> block releases the
  lock, and the outer loop goes on.\<close>

definition write_rejected :: "nat \<Rightarrow> partition_id \<Rightarrow> pipeline \<Rightarrow> pipeline" where
  "write_rejected w p s = scan w (release p s)"

text \<open>
  The interleavings: a sleeping worker wakes up, a write resolves or rejects, a download
  worker pushes the records of a shard onto the queue of its partition, the downloads
  are declared complete.
\<close>

inductive pipeline_step :: "pipeline \<Rightarrow> pipeline \<Rightarrow> bool" where
  wake: "1 \<le> w \<Longrightarrow> w \<le> STORAGE_WORKERS \<Longrightarrow> workers s w = Waiting \<Longrightarrow>
         pipeline_step s (scan w s)"
| resolved: "1 \<le> w \<Longrightarrow> w \<le> STORAGE_WORKERS \<Longrightarrow> workers s w = Writing p b \<Longrightarrow>
         pipeline_step s (write_resolved w p b s)"
| rejected: "1 \<le> w \<Longrightarrow> w \<le> STORAGE_WORKERS \<Longrightarrow> workers s w = Writing p b \<Longrightarrow>
         pipeline_step s (write_rejected w p s)"
| pushed: "p \<in> set (partitions s) \<Longrightarrow>
         pipeline_step s (s\<lparr>taskQueues := (taskQueues s)(p := taskQueues s p @ rs)\<rparr>)"
| completed: "pipeline_step s (s\<lparr>downloadComplete := True\<rparr>)"

text \<open>The state in which the workers are started: empty queues, no lock, every worker
  asleep after its first look at the queues.\<close>

definition initial_pipeline :: "partition_id list \<Rightarrow> pipeline" where
  "initial_pipeline ps =
     \<lparr>partitions = ps, taskQueues = (\<lambda>p. []), lockedPartitions = {},
      workers = (\<lambda>w. Waiting), downloadComplete = False, totalLoaded = 0, completedShards = 0\<rparr>"

inductive reachable :: "partition_id list \<Rightarrow> pipeline \<Rightarrow> bool" where
  start: "reachable ps (initial_pipeline ps)"
| step: "reachable ps s \<Longrightarrow> pipeline_step s s' \<Longrightarrow> reachable ps s'"

text \<open>Worker \<open>w\<close> has a write in flight against partition \<open>p\<close>.\<close>

definition writes_to :: "pipeline \<Rightarrow> nat \<Rightarrow> partition_id \<Rightarrow> bool" where
  "writes_to s w p = (case workers s w of Writing q b \<Rightarrow> q = p | _ \<Rightarrow> False)"

text \<open>No two workers write to one partition; a writer holds the lock of its partition;
  a locked partition has its writer.\<close>

definition mutual_exclusion :: "pipeline \<Rightarrow> bool" where
  "mutual_exclusion s = (\<forall>w1 w2 p. writes_to s w1 p \<and> writes_to s w2 p \<longrightarrow> w1 = w2)"

definition writers_locked :: "pipeline \<Rightarrow> bool" where
  "writers_locked s = (\<forall>w p. writes_to s w p \<longrightarrow> p \<in> lockedPartitions s)"

definition locks_owned :: "pipeline \<Rightarrow> bool" where
  "locks_owned s = (\<forall>p. p \<in> lockedPartitions s \<longrightarrow> (\<exists>w. writes_to s w p))"

definition lock_invariant :: "pipeline \<Rightarrow> bool" where
  "lock_invariant s = (mutual_exclusion s \<and> writers_locked s \<and> locks_owned s)"


lemma lock_invariant_cong:
  "workers s' = workers s \<Longrightarrow> lockedPartitions s' = lockedPartitions s \<Longrightarrow>
   lock_invariant s' = lock_invariant s"
  by (simp add: lock_invariant_def mutual_exclusion_def writers_locked_def locks_owned_def
      writes_to_def)

lemma start_write_fields:
  "workers (start_write w p s) = (workers s)(w := Writing p (take (batchSize (length (taskQueues s p)))
                                                               (taskQueues s p)))"
  "lockedPartitions (start_write w p s) = lockedPartitions s"
  by (simp_all add: start_write_def Let_def)

text \<open>Taking a free partition keeps the invariant, when the worker wrote to none before.\<close>

lemma acquire_invariant:
  assumes inv: "lock_invariant s" and idle: "\<forall>q. \<not> writes_to s w q"
    and free: "p \<notin> lockedPartitions s"
  shows "lock_invariant (start_write w p (s\<lparr>lockedPartitions := insert p (lockedPartitions s)\<rparr>))"
proof -
  let ?s' = "start_write w p (s\<lparr>lockedPartitions := insert p (lockedPartitions s)\<rparr>)"
  have wt: "writes_to ?s' v q = (if v = w then q = p else writes_to s v q)" for v q
    by (auto simp: writes_to_def start_write_fields)
  have lk: "lockedPartitions ?s' = insert p (lockedPartitions s)"
    by (simp add: start_write_fields)
  have nobody: "\<not> writes_to s v p" for v
    using inv free by (auto simp: lock_invariant_def writers_locked_def)
  have m: "mutual_exclusion ?s'"
    unfolding mutual_exclusion_def
  proof (intro allI impI)
    fix w1 w2 q
    assume a: "writes_to ?s' w1 q \<and> writes_to ?s' w2 q"
    show "w1 = w2"
    proof (cases "w1 = w")
      case True
      then have "q = p" using a by (simp add: wt)
      then show ?thesis using a True nobody by (cases "w2 = w") (auto simp: wt)
    next
      case False
      then have w1: "writes_to s w1 q" using a by (simp add: wt)
      show ?thesis
      proof (cases "w2 = w")
        case True
        then have "q = p" using a by (simp add: wt)
        then show ?thesis using w1 nobody by simp
      next
        case False
        then have "writes_to s w2 q" using a by (simp add: wt)
        then show ?thesis using w1 inv by (auto simp: lock_invariant_def mutual_exclusion_def)
      qed
    qed
  qed
  have l: "writers_locked ?s'"
    using inv by (auto simp: writers_locked_def lock_invariant_def wt lk split: if_splits)
  have o: "locks_owned ?s'"
    unfolding locks_owned_def
  proof (intro allI impI)
    fix q
    assume "q \<in> lockedPartitions ?s'"
    then consider "q = p" | "q \<in> lockedPartitions s" using lk by auto
    then show "\<exists>v. writes_to ?s' v q"
    proof cases
      case 1
      then have "writes_to ?s' w q" by (simp add: wt)
      then show ?thesis ..
    next
      case 2
      then obtain v where v: "writes_to s v q"
        using inv by (auto simp: lock_invariant_def locks_owned_def)
      then have "v \<noteq> w" using idle by auto
      then have "writes_to ?s' v q" using v by (simp add: wt)
      then show ?thesis ..
    qed
  qed
  show ?thesis
    using m l o by (simp add: lock_invariant_def)
qed

lemma idle_invariant:
  assumes inv: "lock_invariant s" and idle: "\<forall>q. \<not> writes_to s w q"
    and x: "x = Waiting \<or> x = Finished"
  shows "lock_invariant (s\<lparr>workers := (workers s)(w := x)\<rparr>)"
proof -
  have "writes_to (s\<lparr>workers := (workers s)(w := x)\<rparr>) v q = writes_to s v q" for v q
    using idle x by (auto simp: writes_to_def)
  then show ?thesis
    using inv
    by (simp add: lock_invariant_def mutual_exclusion_def writers_locked_def locks_owned_def)
qed

lemma find_free:
  "find (\<lambda>p. taskQueues s p \<noteq> [] \<and> p \<notin> lockedPartitions s) (partitions s) = Some p \<Longrightarrow>
   p \<notin> lockedPartitions s \<and> taskQueues s p \<noteq> [] \<and> p \<in> set (partitions s)"
  by (auto simp: find_Some_iff)

lemma scan_invariant:
  assumes inv: "lock_invariant s" and idle: "\<forall>q. \<not> writes_to s w q"
  shows "lock_invariant (scan w s)"
proof (cases "downloadComplete s \<and> \<not> hasTasksInQueues s")
  case True
  then have "scan w s = s\<lparr>workers := (workers s)(w := Finished)\<rparr>"
    by (simp add: scan_def)
  then show ?thesis
    using idle_invariant [OF inv idle, of Finished] by simp
next
  case False
  show ?thesis
  proof (cases "find (\<lambda>p. taskQueues s p \<noteq> [] \<and> p \<notin> lockedPartitions s) (partitions s)")
    case None
    have "scan w s = s\<lparr>workers := (workers s)(w := Waiting)\<rparr>"
      using False None by (auto simp: scan_def)
    then show ?thesis
      using idle_invariant [OF inv idle, of Waiting] by simp
  next
    case (Some p)
    have eq: "scan w s = start_write w p (s\<lparr>lockedPartitions := insert p (lockedPartitions s)\<rparr>)"
      using False Some by (auto simp: scan_def)
    have "p \<notin> lockedPartitions s" using Some find_free by blast
    then have "lock_invariant (start_write w p (s\<lparr>lockedPartitions := insert p (lockedPartitions s)\<rparr>))"
      using inv idle by (intro acquire_invariant)
    then show ?thesis
      using eq by simp
  qed
qed

text \<open>The loop turn does not read the worker's own state.\<close>

lemma scan_own_state: "scan w (s\<lparr>workers := (workers s)(w := x)\<rparr>) = scan w s"
  by (simp add: scan_def start_write_def hasTasksInQueues_def Let_def split: option.splits)

text \<open>Releasing the lock of the partition the worker wrote to, with the worker off it.\<close>

lemma release_invariant:
  assumes inv: "lock_invariant s" and wr: "workers s w = Writing p b"
  shows "lock_invariant ((release p s)\<lparr>workers := (workers s)(w := Waiting)\<rparr>) \<and>
         (\<forall>q. \<not> writes_to ((release p s)\<lparr>workers := (workers s)(w := Waiting)\<rparr>) w q)"
proof -
  let ?s' = "(release p s)\<lparr>workers := (workers s)(w := Waiting)\<rparr>"
  have wp: "writes_to s w q = (q = p)" for q
    using wr by (auto simp: writes_to_def)
  have wt: "writes_to ?s' v q = (v \<noteq> w \<and> writes_to s v q)" for v q
    by (simp add: writes_to_def release_def)
  have lk: "lockedPartitions ?s' = lockedPartitions s - {p}"
    by (simp add: release_def)
  have only: "writes_to s v p \<Longrightarrow> v = w" for v
    using inv wp by (auto simp: lock_invariant_def mutual_exclusion_def)
  have m: "mutual_exclusion ?s'"
    using inv by (auto simp: mutual_exclusion_def lock_invariant_def wt)
  have l: "writers_locked ?s'"
    unfolding writers_locked_def
  proof (intro allI impI)
    fix v q
    assume "writes_to ?s' v q"
    then have v: "v \<noteq> w" "writes_to s v q" by (simp_all add: wt)
    then have "q \<in> lockedPartitions s" using inv by (auto simp: lock_invariant_def writers_locked_def)
    moreover have "q \<noteq> p" using v only by auto
    ultimately show "q \<in> lockedPartitions ?s'" by (simp add: lk)
  qed
  have o: "locks_owned ?s'"
    unfolding locks_owned_def
  proof (intro allI impI)
    fix q
    assume "q \<in> lockedPartitions ?s'"
    then have q: "q \<in> lockedPartitions s" "q \<noteq> p" by (simp_all add: lk)
    then obtain v where v: "writes_to s v q"
      using inv by (auto simp: lock_invariant_def locks_owned_def)
    then have "v \<noteq> w" using q wp by auto
    then have "writes_to ?s' v q" using v by (simp add: wt)
    then show "\<exists>v. writes_to ?s' v q" ..
  qed
  show ?thesis
    using m l o by (simp add: lock_invariant_def wt)
qed

lemma release_scan_invariant:
  assumes inv: "lock_invariant s" and wr: "workers s w = Writing p b"
  shows "lock_invariant (scan w (release p s))"
proof -
  let ?s' = "(release p s)\<lparr>workers := (workers s)(w := Waiting)\<rparr>"
  have "workers (release p s) = workers s"
    by (simp add: release_def)
  then have "scan w (release p s) = scan w ?s'"
    using scan_own_state [of w "release p s" Waiting] by simp
  moreover have "lock_invariant (scan w ?s')"
    using release_invariant [OF inv wr] by (intro scan_invariant) simp_all
  ultimately show ?thesis by simp
qed

lemma step_invariant:
  assumes "pipeline_step s s'" and "lock_invariant s"
  shows "lock_invariant s'"
  using assms
proof (induction rule: pipeline_step.induct)
  case (wake w s)
  have "\<forall>q. \<not> writes_to s w q" using wake(3) by (simp add: writes_to_def)
  then show ?case using wake(4) by (intro scan_invariant)
next
  case (resolved w s p b)
  let ?s1 = "s\<lparr>totalLoaded := totalLoaded s + length b\<rparr>"
  have i1: "lock_invariant ?s1"
    using resolved(4) lock_invariant_cong [of ?s1 s] by simp
  have w1: "workers ?s1 w = Writing p b" using resolved(3) by simp
  show ?case
  proof (cases "taskQueues ?s1 p \<noteq> []")
    case True
    have "workers (start_write w p ?s1) = (workers ?s1)(w := Writing p
        (take (batchSize (length (taskQueues ?s1 p))) (taskQueues ?s1 p)))"
      by (rule start_write_fields)
    then have "writes_to (start_write w p ?s1) v q = writes_to ?s1 v q" for v q
      using w1 by (simp add: writes_to_def)
    then have "lock_invariant (start_write w p ?s1)"
      using i1
      by (simp add: lock_invariant_def mutual_exclusion_def writers_locked_def locks_owned_def
          start_write_fields)
    then show ?thesis using True by (simp add: write_resolved_def Let_def)
  next
    case False
    let ?s2 = "?s1\<lparr>completedShards := completedShards ?s1 + 1\<rparr>"
    have i2: "lock_invariant ?s2"
      using i1 lock_invariant_cong [of ?s2 ?s1] by simp
    have w2: "workers ?s2 w = Writing p b" using resolved(3) by simp
    have "lock_invariant (scan w (release p ?s2))"
      using i2 w2 by (rule release_scan_invariant)
    then show ?thesis using False by (simp add: write_resolved_def Let_def)
  qed
next
  case (rejected w s p b)
  then show ?case by (simp add: write_rejected_def release_scan_invariant)
next
  case (pushed p s rs)
  then show ?case
    using lock_invariant_cong [of "s\<lparr>taskQueues := (taskQueues s)(p := taskQueues s p @ rs)\<rparr>" s]
    by simp
next
  case (completed s)
  then show ?case
    using lock_invariant_cong [of "s\<lparr>downloadComplete := True\<rparr>" s] by simp
qed

lemma initial_invariant: "lock_invariant (initial_pipeline ps)"
  by (simp add: lock_invariant_def mutual_exclusion_def writers_locked_def locks_owned_def
      writes_to_def initial_pipeline_def)

lemma reachable_invariant: "reachable ps s \<Longrightarrow> lock_invariant s"
  by (induction rule: reachable.induct) (auto intro: initial_invariant step_invariant)


lemma scan_others: "v \<noteq> w \<Longrightarrow> workers (scan w s) v = workers s v"
  by (simp add: scan_def start_write_def Let_def split: option.splits)

lemma rejected_owner:
  assumes inv: "lock_invariant s" and wr: "workers s w = Writing p b"
    and lk: "p \<in> lockedPartitions (write_rejected w p s)"
  shows "writes_to (write_rejected w p s) w p"
proof -
  have i': "lock_invariant (write_rejected w p s)"
    using inv wr by (simp add: write_rejected_def release_scan_invariant)
  then obtain v where v: "writes_to (write_rejected w p s) v p"
    using lk by (auto simp: lock_invariant_def locks_owned_def)
  have "v = w"
  proof (rule ccontr)
    assume n: "v \<noteq> w"
    then have "workers (write_rejected w p s) v = workers s v"
      by (simp add: write_rejected_def scan_others release_def)
    then have "writes_to s v p" using v by (simp add: writes_to_def)
    moreover have "writes_to s w p" using wr by (simp add: writes_to_def)
    ultimately show False
      using inv n by (auto simp: lock_invariant_def mutual_exclusion_def)
  qed
  then show ?thesis using v by simp
qed

text \<open>
  Claim C7. In every state that the workers, the downloads and the outcomes of the
  writes can reach, in whatever order they interleave, no two storage workers have a
  write in flight against the same partition; a worker with a write in flight holds the
  lock of its partition (it took the lock, in one uninterrupted turn, only when the
  partition was not locked); and a locked partition has its writer. When a write is
  rejected the \<open>finally\<close> block removes the lock: the invariant still holds after the
  step, and the partition is locked afterwards only if the same worker has taken it again
  in the same turn.
\<close>

theorem C7_partition_lock:
  "reachable ps s \<longrightarrow>
     mutual_exclusion s \<and> writers_locked s \<and> locks_owned s \<and>
     (workers s w = Writing p b \<longrightarrow>
        p \<in> lockedPartitions s \<and>
        p \<notin> lockedPartitions (release p s) \<and>
        lock_invariant (write_rejected w p s) \<and>
        lock_invariant (write_resolved w p b s) \<and>
        (p \<in> lockedPartitions (write_rejected w p s) \<longrightarrow> writes_to (write_rejected w p s) w p))"
proof
  assume r: "reachable ps s"
  then have inv: "lock_invariant s" by (rule reachable_invariant)
  have wr: "workers s w = Writing p b \<longrightarrow>
        p \<in> lockedPartitions s \<and>
        p \<notin> lockedPartitions (release p s) \<and>
        lock_invariant (write_rejected w p s) \<and>
        lock_invariant (write_resolved w p b s) \<and>
        (p \<in> lockedPartitions (write_rejected w p s) \<longrightarrow> writes_to (write_rejected w p s) w p)"
  proof
    assume a: "workers s w = Writing p b"
    have "writes_to s w p" using a by (simp add: writes_to_def)
    then have l: "p \<in> lockedPartitions s"
      using inv by (auto simp: lock_invariant_def writers_locked_def)
    have rel: "p \<notin> lockedPartitions (release p s)"
      by (simp add: release_def)
    have rej: "lock_invariant (write_rejected w p s)"
      using inv a by (simp add: write_rejected_def release_scan_invariant)
    have res: "lock_invariant (write_resolved w p b s)"
    proof (cases "1 \<le> w \<and> w \<le> STORAGE_WORKERS")
      case True
      then have "pipeline_step s (write_resolved w p b s)"
        using a by (intro pipeline_step.resolved) simp_all
      then show ?thesis using inv by (rule step_invariant)
    next
      case False
      have "workers s' v = Waiting" if "reachable ps s'" "\<not> (1 \<le> v \<and> v \<le> STORAGE_WORKERS)" for s' v
        using that
      proof (induction rule: reachable.induct)
        case (start ps)
        show ?case by (simp add: initial_pipeline_def)
      next
        case (step ps s s')
        from step(2) step(3)[OF step(4)] step(4) show ?case
        proof (induction rule: pipeline_step.induct)
          case (wake w s)
          then have "v \<noteq> w" by auto
          then show ?case using wake by (simp add: scan_others)
        next
          case (resolved w s p b)
          then have n: "v \<noteq> w" by auto
          then show ?case
            using resolved
            by (simp add: write_resolved_def Let_def scan_others release_def start_write_fields)
        next
          case (rejected w s p b)
          then have "v \<noteq> w" by auto
          then show ?case using rejected by (simp add: write_rejected_def scan_others release_def)
        next
          case (pushed p s rs)
          then show ?case by simp
        next
          case (completed s)
          then show ?case by simp
        qed
      qed
      then have "workers s w = Waiting" using r False by blast
      then show ?thesis using a by simp
    qed
    show "p \<in> lockedPartitions s \<and>
        p \<notin> lockedPartitions (release p s) \<and>
        lock_invariant (write_rejected w p s) \<and>
        lock_invariant (write_resolved w p b s) \<and>
        (p \<in> lockedPartitions (write_rejected w p s) \<longrightarrow> writes_to (write_rejected w p s) w p)"
      using l rel rej res rejected_owner [OF inv a] by blast
  qed
  show "mutual_exclusion s \<and> writers_locked s \<and> locks_owned s \<and>
     (workers s w = Writing p b \<longrightarrow>
        p \<in> lockedPartitions s \<and>
        p \<notin> lockedPartitions (release p s) \<and>
        lock_invariant (write_rejected w p s) \<and>
        lock_invariant (write_resolved w p b s) \<and>
        (p \<in> lockedPartitions (write_rejected w p s) \<longrightarrow> writes_to (write_rejected w p s) w p))"
    using inv wr by (simp add: lock_invariant_def)
qed

text \<open>A run: the records of a shard arrive for the first of two partitions, then
  worker 1 wakes up, locks the partition and starts writing.\<close>

definition pipeline_pushed :: pipeline where
  "pipeline_pushed =
     (initial_pipeline [''2024_Q1'', ''2024_Q2''])
       \<lparr>taskQueues := (taskQueues (initial_pipeline [''2024_Q1'', ''2024_Q2'']))
          (''2024_Q1'' := taskQueues (initial_pipeline [''2024_Q1'', ''2024_Q2'']) ''2024_Q1''
                          @ [rec_P1, rec_P2])\<rparr>"

definition pipeline_writing :: pipeline where
  "pipeline_writing = scan 1 pipeline_pushed"

theorem C7_partition_lock_witness:
  "reachable [''2024_Q1'', ''2024_Q2''] pipeline_writing \<and>
   workers pipeline_writing 1 = Writing ''2024_Q1'' [rec_P1, rec_P2] \<and>
   mutual_exclusion pipeline_writing \<and>
   ''2024_Q1'' \<in> lockedPartitions pipeline_writing \<and>
   lock_invariant (write_rejected 1 ''2024_Q1'' pipeline_writing) \<and>
   lockedPartitions (write_rejected 1 ''2024_Q1'' pipeline_writing) = {}"
proof -
  have r0: "reachable [''2024_Q1'', ''2024_Q2''] (initial_pipeline [''2024_Q1'', ''2024_Q2''])"
    by (rule reachable.start)
  have "pipeline_step (initial_pipeline [''2024_Q1'', ''2024_Q2'']) pipeline_pushed"
    unfolding pipeline_pushed_def
    by (rule pipeline_step.pushed) (simp add: initial_pipeline_def)
  then have r1: "reachable [''2024_Q1'', ''2024_Q2''] pipeline_pushed"
    using r0 by (rule reachable.step [rotated])
  have "workers pipeline_pushed 1 = Waiting"
    by (simp add: pipeline_pushed_def initial_pipeline_def)
  then have "pipeline_step pipeline_pushed pipeline_writing"
    unfolding pipeline_writing_def
    by (intro pipeline_step.wake) (simp_all add: STORAGE_WORKERS_def)
  then have r2: "reachable [''2024_Q1'', ''2024_Q2''] pipeline_writing"
    using r1 by (rule reachable.step [rotated])
  have w: "pipeline_writing =
      pipeline_pushed\<lparr>lockedPartitions := {''2024_Q1''},
                      taskQueues := (taskQueues pipeline_pushed)(''2024_Q1'' := []),
                      workers := (workers pipeline_pushed)(1 := Writing ''2024_Q1'' [rec_P1, rec_P2])\<rparr>"
    by (simp add: pipeline_writing_def scan_def pipeline_pushed_def initial_pipeline_def
        hasTasksInQueues_def start_write_def batchSize_def MIN_BATCH_SIZE_def Let_def)
  have w1: "workers pipeline_writing 1 = Writing ''2024_Q1'' [rec_P1, rec_P2]"
    by (simp add: w)
  have e: "lockedPartitions (write_rejected 1 ''2024_Q1'' pipeline_writing) = {}"
    by (simp add: write_rejected_def release_def w scan_def pipeline_pushed_def initial_pipeline_def
        hasTasksInQueues_def)
  show ?thesis
    using C7_partition_lock [where ps = "[''2024_Q1'', ''2024_Q2'']" and s = pipeline_writing
        and w = 1 and p = "''2024_Q1''" and b = "[rec_P1, rec_P2]"] r2 w1 e
    by blast
qed

section \<open>Storage workers of the three-layer load (the other version of parallelShardedLoad)\<close>

text \<open>
  The other version of the loader keeps the lock in the cache manager and asks for it
  with \<open>cacheManager.tryLockPartition(partitionId)\<close>, giving it back with
  \<open>cacheManager.unlockPartition(partitionId)\<close> in the \<open>finally\<close> block. A worker
  goes through the partitions in one pass of its \<open>for\<close> loop and writes one batch per
  lock; after a write it goes on with the partitions left in the pass.
\<close>

text \<open>Modelled from the spec: \<open>CacheManager.tryLockPartition\<close>, which is not in the
  sources at hand; the specification describes a cooperative lock set that a worker
  tries and moves on from. The result is whether the lock was taken, and the lock set.\<close>

definition tryLockPartition :: "partition_id \<Rightarrow> partition_id set \<Rightarrow> bool \<times> partition_id set" where
  "tryLockPartition p L = (if p \<in> L then (False, L) else (True, insert p L))"

text \<open>Modelled from the spec: \<open>CacheManager.unlockPartition\<close>, which is not in the
  sources at hand; it gives the lock of the partition back.\<close>

definition unlockPartition :: "partition_id \<Rightarrow> partition_id set \<Rightarrow> partition_id set" where
  "unlockPartition p L = L - {p}"

text \<open>A suspended worker: asleep for 10 ms, or waiting for the write of a batch, with
  the partitions that its pass has still to visit.\<close>

datatype storage_state = Sleeping | Storing partition_id "obj list" "partition_id list" | Stopped

record pipeline3 =
  partitionIds :: "partition_id list"
  parsedQueues :: "partition_id \<Rightarrow> obj list"
  partitionLocks :: "partition_id set"
  storage :: "nat \<Rightarrow> storage_state"
  parseComplete :: bool
  loaded :: nat

definition OPTIMAL_BATCH_SIZE :: nat where
  "OPTIMAL_BATCH_SIZE = 5000"

definition hasParsedData :: "pipeline3 \<Rightarrow> bool" where
  "hasParsedData s = list_ex (\<lambda>p. parsedQueues s p \<noteq> []) (partitionIds s)"

text \<open>
  The \<open>for\<close> loop from the partitions \<open>rest\<close> on, up to the next \<open>await\<close>: empty
  queues and partitions whose lock is not obtained are skipped; on the first partition
  locked a batch is taken and its write awaited. \<open>None\<close> when the loop ends without a
  write.
\<close>

fun pass :: "nat \<Rightarrow> partition_id list \<Rightarrow> pipeline3 \<Rightarrow> pipeline3 option" where
  "pass w [] s = None"
| "pass w (p # rest) s =
     (if parsedQueues s p = [] then pass w rest s
      else
        (case tryLockPartition p (partitionLocks s) of
           (False, L) \<Rightarrow> pass w rest s
         | (True, L) \<Rightarrow>
             (let q = parsedQueues s p; n = min (length q) OPTIMAL_BATCH_SIZE
              in Some (s\<lparr>partitionLocks := L,
                         parsedQueues := (parsedQueues s)(p := drop n q),
                         storage := (storage s)(w := Storing p (take n q) rest)\<rparr>))))"

text \<open>The top of the \<open>while\<close> loop: stop, or make a fresh pass, sleeping when it found
  nothing to write.\<close>

definition loop_top :: "nat \<Rightarrow> pipeline3 \<Rightarrow> pipeline3" where
  "loop_top w s =
     (if parseComplete s \<and> \<not> hasParsedData s then s\<lparr>storage := (storage s)(w := Stopped)\<rparr>
      else (case pass w (partitionIds s) s of
              Some s' \<Rightarrow> s'
            | None \<Rightarrow> s\<lparr>storage := (storage s)(w := Sleeping)\<rparr>))"

text \<open>After the write, resolved or rejected: the \<open>finally\<close> block unlocks, the pass goes
  on; a pass in which a write was made is followed by the next turn of the \<open>while\<close>
  loop without a sleep.\<close>

definition after_store :: "nat \<Rightarrow> partition_id \<Rightarrow> partition_id list \<Rightarrow> pipeline3 \<Rightarrow> pipeline3" where
  "after_store w p rest s =
     (let s1 = s\<lparr>partitionLocks := unlockPartition p (partitionLocks s)\<rparr>
      in case pass w rest s1 of Some s' \<Rightarrow> s' | None \<Rightarrow> loop_top w s1)"

inductive storage_step :: "pipeline3 \<Rightarrow> pipeline3 \<Rightarrow> bool" where
  wake3: "storage s w = Sleeping \<Longrightarrow> storage_step s (loop_top w s)"
| resolved3: "storage s w = Storing p b rest \<Longrightarrow>
     storage_step s (after_store w p rest (s\<lparr>loaded := loaded s + length b\<rparr>))"
| rejected3: "storage s w = Storing p b rest \<Longrightarrow> storage_step s (after_store w p rest s)"
| parsed3: "storage_step s (s\<lparr>parsedQueues := (parsedQueues s)(p := parsedQueues s p @ rs)\<rparr>)"
| parse_done3: "storage_step s (s\<lparr>parseComplete := True\<rparr>)"

definition initial_pipeline3 :: "partition_id list \<Rightarrow> pipeline3" where
  "initial_pipeline3 ps =
     \<lparr>partitionIds = ps, parsedQueues = (\<lambda>p. []), partitionLocks = {},
      storage = (\<lambda>w. Sleeping), parseComplete = False, loaded = 0\<rparr>"

inductive reachable3 :: "partition_id list \<Rightarrow> pipeline3 \<Rightarrow> bool" where
  start3: "reachable3 ps (initial_pipeline3 ps)"
| step3: "reachable3 ps s \<Longrightarrow> storage_step s s' \<Longrightarrow> reachable3 ps s'"

definition stores_to :: "pipeline3 \<Rightarrow> nat \<Rightarrow> partition_id \<Rightarrow> bool" where
  "stores_to s w p = (case storage s w of Storing q b rest \<Rightarrow> q = p | _ \<Rightarrow> False)"

text \<open>As before: one writer per partition, every writer under its lock, every lock
  with its writer.\<close>

definition lock_invariant3 :: "pipeline3 \<Rightarrow> bool" where
  "lock_invariant3 s =
     ((\<forall>w1 w2 p. stores_to s w1 p \<and> stores_to s w2 p \<longrightarrow> w1 = w2) \<and>
      (\<forall>w p. stores_to s w p \<longrightarrow> p \<in> partitionLocks s) \<and>
      (\<forall>p. p \<in> partitionLocks s \<longrightarrow> (\<exists>w. stores_to s w p)))"

lemma invariant3_cong:
  "storage s' = storage s \<Longrightarrow> partitionLocks s' = partitionLocks s \<Longrightarrow>
   lock_invariant3 s' = lock_invariant3 s"
  by (simp add: lock_invariant3_def stores_to_def)

lemma idle3:
  assumes "lock_invariant3 s" and "\<forall>q. \<not> stores_to s w q" and "x = Sleeping \<or> x = Stopped"
  shows "lock_invariant3 (s\<lparr>storage := (storage s)(w := x)\<rparr>)"
proof -
  have "stores_to (s\<lparr>storage := (storage s)(w := x)\<rparr>) v q = stores_to s v q" for v q
    using assms(2,3) by (auto simp: stores_to_def)
  then show ?thesis
    using assms(1) by (simp add: lock_invariant3_def)
qed

lemma acquire3:
  assumes inv: "lock_invariant3 s" and idle: "\<forall>q. \<not> stores_to s w q"
    and free: "p \<notin> partitionLocks s"
  shows "lock_invariant3 (s\<lparr>partitionLocks := insert p (partitionLocks s),
                             parsedQueues := Q, storage := (storage s)(w := Storing p b rest)\<rparr>)"
proof -
  let ?s' = "s\<lparr>partitionLocks := insert p (partitionLocks s),
               parsedQueues := Q, storage := (storage s)(w := Storing p b rest)\<rparr>"
  have wt: "stores_to ?s' v q = (if v = w then q = p else stores_to s v q)" for v q
    by (auto simp: stores_to_def)
  have nobody: "\<not> stores_to s v p" for v
    using inv free by (auto simp: lock_invariant3_def)
  have m: "\<forall>w1 w2 q. stores_to ?s' w1 q \<and> stores_to ?s' w2 q \<longrightarrow> w1 = w2"
  proof (intro allI impI)
    fix w1 w2 q
    assume a: "stores_to ?s' w1 q \<and> stores_to ?s' w2 q"
    show "w1 = w2"
    proof (cases "w1 = w")
      case True
      then have "q = p" using a by (simp add: wt)
      then show ?thesis using a True nobody by (cases "w2 = w") (auto simp: wt)
    next
      case False
      then have w1: "stores_to s w1 q" using a by (simp add: wt)
      show ?thesis
      proof (cases "w2 = w")
        case True
        then have "q = p" using a by (simp add: wt)
        then show ?thesis using w1 nobody by simp
      next
        case False
        then have "stores_to s w2 q" using a by (simp add: wt)
        then show ?thesis using w1 inv by (auto simp: lock_invariant3_def)
      qed
    qed
  qed
  have l: "\<forall>v q. stores_to ?s' v q \<longrightarrow> q \<in> partitionLocks ?s'"
    using inv by (auto simp: lock_invariant3_def wt split: if_splits)
  have o: "\<forall>q. q \<in> partitionLocks ?s' \<longrightarrow> (\<exists>v. stores_to ?s' v q)"
  proof (intro allI impI)
    fix q
    assume "q \<in> partitionLocks ?s'"
    then consider "q = p" | "q \<in> partitionLocks s" by auto
    then show "\<exists>v. stores_to ?s' v q"
    proof cases
      case 1
      then have "stores_to ?s' w q" by (simp add: wt)
      then show ?thesis ..
    next
      case 2
      then obtain v where v: "stores_to s v q"
        using inv by (auto simp: lock_invariant3_def)
      then have "v \<noteq> w" using idle by auto
      then have "stores_to ?s' v q" using v by (simp add: wt)
      then show ?thesis ..
    qed
  qed
  show ?thesis
    unfolding lock_invariant3_def using m l o by blast
qed

lemma pass_invariant:
  assumes "lock_invariant3 s" and "\<forall>q. \<not> stores_to s w q" and "pass w rest s = Some s'"
  shows "lock_invariant3 s'"
  using assms
proof (induction rest)
  case Nil
  then show ?case by simp
next
  case (Cons p rest)
  show ?case
  proof (cases "parsedQueues s p = [] \<or> p \<in> partitionLocks s")
    case True
    then have "pass w (p # rest) s = pass w rest s"
      by (auto simp: tryLockPartition_def)
    then show ?thesis using Cons by simp
  next
    case False
    then have "s' = s\<lparr>partitionLocks := insert p (partitionLocks s),
        parsedQueues := (parsedQueues s)(p := drop (min (length (parsedQueues s p)) OPTIMAL_BATCH_SIZE)
                                                  (parsedQueues s p)),
        storage := (storage s)(w := Storing p
                      (take (min (length (parsedQueues s p)) OPTIMAL_BATCH_SIZE) (parsedQueues s p))
                      rest)\<rparr>"
      using Cons.prems(3) by (simp add: tryLockPartition_def Let_def)
    moreover have "p \<notin> partitionLocks s" using False by simp
    ultimately show ?thesis
      using acquire3 [OF Cons.prems(1) Cons.prems(2)] by simp
  qed
qed

lemma pass_own_state: "pass w rest (s\<lparr>storage := (storage s)(w := x)\<rparr>) = pass w rest s"
proof (induction rest)
  case Nil
  show ?case by simp
next
  case (Cons p rest)
  show ?case
  proof (cases "parsedQueues s p = [] \<or> p \<in> partitionLocks s")
    case True
    then show ?thesis using Cons by (auto simp: tryLockPartition_def)
  next
    case False
    then show ?thesis by (simp add: tryLockPartition_def Let_def fun_eq_iff)
  qed
qed

lemma loop_top_own_state: "loop_top w (s\<lparr>storage := (storage s)(w := x)\<rparr>) = loop_top w s"
  by (simp add: loop_top_def pass_own_state hasParsedData_def split: option.splits)

lemma loop_top_invariant:
  assumes inv: "lock_invariant3 s" and idle: "\<forall>q. \<not> stores_to s w q"
  shows "lock_invariant3 (loop_top w s)"
proof (cases "parseComplete s \<and> \<not> hasParsedData s")
  case True
  then have "loop_top w s = s\<lparr>storage := (storage s)(w := Stopped)\<rparr>"
    by (simp add: loop_top_def)
  then show ?thesis using idle3 [OF inv idle, of Stopped] by simp
next
  case False
  show ?thesis
  proof (cases "pass w (partitionIds s) s")
    case None
    then have "loop_top w s = s\<lparr>storage := (storage s)(w := Sleeping)\<rparr>"
      using False by (auto simp: loop_top_def)
    then show ?thesis using idle3 [OF inv idle, of Sleeping] by simp
  next
    case (Some s')
    then have "loop_top w s = s'" using False by (auto simp: loop_top_def)
    then show ?thesis using pass_invariant [OF inv idle Some] by simp
  qed
qed

lemma unlock3:
  assumes inv: "lock_invariant3 s" and st: "storage s w = Storing p b rest"
  shows "lock_invariant3 (s\<lparr>partitionLocks := unlockPartition p (partitionLocks s),
                             storage := (storage s)(w := Sleeping)\<rparr>) \<and>
         (\<forall>q. \<not> stores_to (s\<lparr>partitionLocks := unlockPartition p (partitionLocks s),
                                storage := (storage s)(w := Sleeping)\<rparr>) w q)"
proof -
  let ?s' = "s\<lparr>partitionLocks := unlockPartition p (partitionLocks s),
               storage := (storage s)(w := Sleeping)\<rparr>"
  have wp: "stores_to s w q = (q = p)" for q
    using st by (auto simp: stores_to_def)
  have wt: "stores_to ?s' v q = (v \<noteq> w \<and> stores_to s v q)" for v q
    by (simp add: stores_to_def)
  have lk: "partitionLocks ?s' = partitionLocks s - {p}"
    by (simp add: unlockPartition_def)
  have only: "stores_to s v p \<Longrightarrow> v = w" for v
    using inv wp by (auto simp: lock_invariant3_def)
  have m: "\<forall>w1 w2 q. stores_to ?s' w1 q \<and> stores_to ?s' w2 q \<longrightarrow> w1 = w2"
    using inv by (auto simp: lock_invariant3_def wt)
  have l: "\<forall>v q. stores_to ?s' v q \<longrightarrow> q \<in> partitionLocks ?s'"
  proof (intro allI impI)
    fix v q
    assume "stores_to ?s' v q"
    then have v: "v \<noteq> w" "stores_to s v q" by (simp_all add: wt)
    then have "q \<in> partitionLocks s" using inv by (auto simp: lock_invariant3_def)
    moreover have "q \<noteq> p" using v only by auto
    ultimately show "q \<in> partitionLocks ?s'" by (simp add: lk)
  qed
  have o: "\<forall>q. q \<in> partitionLocks ?s' \<longrightarrow> (\<exists>v. stores_to ?s' v q)"
  proof (intro allI impI)
    fix q
    assume "q \<in> partitionLocks ?s'"
    then have q: "q \<in> partitionLocks s" "q \<noteq> p" by (simp_all add: lk)
    then obtain v where v: "stores_to s v q"
      using inv by (auto simp: lock_invariant3_def)
    then have "v \<noteq> w" using q wp by auto
    then have "stores_to ?s' v q" using v by (simp add: wt)
    then show "\<exists>v. stores_to ?s' v q" ..
  qed
  have "lock_invariant3 ?s'"
    unfolding lock_invariant3_def using m l o by blast
  then show ?thesis by (simp add: wt)
qed

lemma after_store_invariant:
  assumes inv: "lock_invariant3 s" and st: "storage s w = Storing p b rest"
  shows "lock_invariant3 (after_store w p rest s)"
proof -
  let ?s1 = "s\<lparr>partitionLocks := unlockPartition p (partitionLocks s)\<rparr>"
  let ?s2 = "?s1\<lparr>storage := (storage ?s1)(w := Sleeping)\<rparr>"
  have i2: "lock_invariant3 ?s2"
    using unlock3 [OF inv st] by simp
  have idle2: "\<forall>q. \<not> stores_to ?s2 w q"
    by (simp add: stores_to_def)
  have p: "pass w rest ?s1 = pass w rest ?s2"
    by (rule pass_own_state [symmetric])
  have t: "loop_top w ?s1 = loop_top w ?s2"
    by (rule loop_top_own_state [symmetric])
  show ?thesis
  proof (cases "pass w rest ?s2")
    case None
    then have "after_store w p rest s = loop_top w ?s2"
      using p t by (simp add: after_store_def Let_def)
    then show ?thesis using loop_top_invariant [OF i2 idle2] by simp
  next
    case (Some s')
    then have "after_store w p rest s = s'"
      using p by (simp add: after_store_def Let_def)
    then show ?thesis using pass_invariant [OF i2 idle2 Some] by simp
  qed
qed

lemma storage_step_invariant:
  assumes "storage_step s s'" and "lock_invariant3 s"
  shows "lock_invariant3 s'"
  using assms
proof (induction rule: storage_step.induct)
  case (wake3 s w)
  have "\<forall>q. \<not> stores_to s w q" using wake3(1) by (simp add: stores_to_def)
  then show ?case using wake3(2) by (intro loop_top_invariant)
next
  case (resolved3 s w p b rest)
  let ?s1 = "s\<lparr>loaded := loaded s + length b\<rparr>"
  have "lock_invariant3 ?s1" using resolved3(2) invariant3_cong [of ?s1 s] by simp
  moreover have "storage ?s1 w = Storing p b rest" using resolved3(1) by simp
  ultimately show ?case by (rule after_store_invariant)
next
  case (rejected3 s w p b rest)
  then show ?case by (simp add: after_store_invariant)
next
  case (parsed3 s p rs)
  then show ?case
    using invariant3_cong [of "s\<lparr>parsedQueues := (parsedQueues s)(p := parsedQueues s p @ rs)\<rparr>" s]
    by simp
next
  case (parse_done3 s)
  then show ?case using invariant3_cong [of "s\<lparr>parseComplete := True\<rparr>" s] by simp
qed

text \<open>
  With the lock set behaving as the specification describes, the other version of the
  loader keeps the same invariant in every reachable state.
\<close>

lemma three_layer_lock_invariant: "reachable3 ps s \<Longrightarrow> lock_invariant3 s"
proof (induction rule: reachable3.induct)
  case (start3 ps)
  show ?case
    by (simp add: lock_invariant3_def stores_to_def initial_pipeline3_def)
next
  case (step3 ps s s')
  then show ?case using storage_step_invariant by blast
qed

end
